theory Spec2Isabelle
  imports Main "HOL-Library.Word"
begin

section \<open>The lazy generator (cpp/coroutines/main.cc)\<close>

subsection \<open>Data model\<close>

text \<open>
  The C++ type \<^verbatim>\<open>int\<close> is a 32-bit two's complement integer; it is read with
  \<^const>\<open>sint\<close> and compared with the signed order.
\<close>

type_synonym cint = "32 word"

text \<open>
  Every way in which the program leaves defined behaviour is a value of \<open>error\<close>:
  using a null or a destroyed coroutine handle, resuming a coroutine that is suspended at
  its final suspend point, and overflowing a signed integer. The last two constructors are
  compile-time failures: an expression that is ill-formed, and a call whose constraint is
  not satisfied.
\<close>

datatype error =
    NullHandle
  | DanglingHandle
  | ResumeAtFinalSuspend
  | SignedOverflow
  | IllFormed
  | ConstraintNotSatisfied

text \<open>
  The three suspension points of a coroutine whose promise has
  \<^verbatim>\<open>initial_suspend\<close> and \<^verbatim>\<open>final_suspend\<close> both returning
  \<^verbatim>\<open>std::suspend_always\<close>, and whose body has one \<^verbatim>\<open>co_yield\<close>.
\<close>

datatype suspend_point = InitialSuspend | YieldSuspend | FinalSuspend

text \<open>
  The coroutine frame of \<^verbatim>\<open>counter\<close>: the resume point, the copies of the two
  parameters, and the promise (\<^verbatim>\<open>promise_type_base<int, Generator<int>>\<close>), whose only
  data member is \<^verbatim>\<open>mValue\<close>.
\<close>

record frame =
  point :: suspend_point
  start :: cint
  end' :: cint
  mValue :: cint

text \<open>
  Frames live in the free store. A \<^verbatim>\<open>std::coroutine_handle\<close> is the address of a
  frame or null; \<^verbatim>\<open>Generator<T>\<close> has the single data member \<^verbatim>\<open>mCoroHdl\<close>.
\<close>

record store =
  frames :: "nat \<rightharpoonup> frame"
  fresh :: nat

record generator =
  mCoroHdl :: "nat option"

definition empty_store :: store where
  "empty_store = \<lparr>frames = Map.empty, fresh = 0\<rparr>"

subsection \<open>The producer\<close>

definition INT_MAX :: cint where
  "INT_MAX = 2147483647"

text \<open>
  \<^verbatim>\<open>co_yield start\<close> calls \<^verbatim>\<open>yield_value(start)\<close>, which stores the value in
  \<^verbatim>\<open>mValue\<close> and suspends.
\<close>

definition yield_value :: "cint \<Rightarrow> frame \<Rightarrow> frame" where
  "yield_value v f = f\<lparr>mValue := v, point := YieldSuspend\<rparr>"

text \<open>
  The test of \<^verbatim>\<open>while (start < end)\<close> and what follows it up to the next suspension:
  the \<^verbatim>\<open>co_yield\<close> inside the loop, or \<^verbatim>\<open>return_void\<close> and the final suspend
  after it.
\<close>

definition loop_test :: "frame \<Rightarrow> frame" where
  "loop_test f =
     (if start f <s end' f then yield_value (start f) f
      else f\<lparr>point := FinalSuspend\<rparr>)"

text \<open>
  \<^verbatim>\<open>resume()\<close> on the frame of \<^verbatim>\<open>counter\<close>. From the initial suspend the body
  starts with the loop test; from the \<^verbatim>\<open>co_yield\<close> it continues with
  \<^verbatim>\<open>start++\<close> and then the loop test. Resuming at the final suspend point is undefined.
\<close>

definition resume :: "frame \<Rightarrow> error + frame" where
  "resume f =
     (case point f of
        InitialSuspend \<Rightarrow> Inr (loop_test f)
      | YieldSuspend \<Rightarrow>
          (if start f = INT_MAX then Inl SignedOverflow
           else Inr (loop_test (f\<lparr>start := start f + 1\<rparr>)))
      | FinalSuspend \<Rightarrow> Inl ResumeAtFinalSuspend)"

text \<open>
  Calling \<^verbatim>\<open>counter(start, end)\<close> allocates the frame, default-initialises the promise,
  builds the return object from it (\<^verbatim>\<open>get_return_object\<close>, the explicit constructor of
  \<^verbatim>\<open>Generator\<close>) and suspends at \<^verbatim>\<open>initial_suspend\<close>. The promise has no
  constructor and no member initialiser, so \<^verbatim>\<open>mValue\<close> starts with an indeterminate
  value: it is the parameter \<open>v0\<close>.
\<close>

definition counter :: "cint \<Rightarrow> cint \<Rightarrow> cint \<Rightarrow> store \<Rightarrow> generator \<times> store" where
  "counter v0 a b s =
     (let p = fresh s in
      (\<lparr>mCoroHdl = Some p\<rparr>,
       s\<lparr>frames := (frames s)(p \<mapsto> \<lparr>point = InitialSuspend, start = a, end' = b, mValue = v0\<rparr>),
         fresh := Suc p\<rparr>))"

subsection \<open>The handle\<close>

text \<open>The frame a generator refers to, if its handle is neither null nor dangling.\<close>

definition frame_of :: "generator \<Rightarrow> store \<Rightarrow> error + frame" where
  "frame_of g s =
     (case mCoroHdl g of
        None \<Rightarrow> Inl NullHandle
      | Some p \<Rightarrow> (case frames s p of None \<Rightarrow> Inl DanglingHandle | Some f \<Rightarrow> Inr f))"

definition Generator_done :: "generator \<Rightarrow> store \<Rightarrow> error + bool" where
  "Generator_done g s =
     (case frame_of g s of
        Inl e \<Rightarrow> Inl e
      | Inr f \<Rightarrow> Inr (point f = FinalSuspend))"

definition Generator_next :: "generator \<Rightarrow> store \<Rightarrow> error + (cint \<times> store)" where
  "Generator_next g s =
     (case frame_of g s of
        Inl e \<Rightarrow> Inl e
      | Inr f \<Rightarrow>
          (case resume f of
             Inl e \<Rightarrow> Inl e
           | Inr f' \<Rightarrow> Inr (mValue f', s\<lparr>frames := (frames s)(the (mCoroHdl g) \<mapsto> f')\<rparr>)))"

text \<open>\<^verbatim>\<open>~Generator() { if(mCoroHdl) mCoroHdl.destroy(); }\<close>\<close>

definition Generator_dtor :: "generator \<Rightarrow> store \<Rightarrow> error + store" where
  "Generator_dtor g s =
     (case mCoroHdl g of
        None \<Rightarrow> Inr s
      | Some p \<Rightarrow>
          (case frames s p of
             None \<Rightarrow> Inl DanglingHandle
           | Some f \<Rightarrow> Inr (s\<lparr>frames := (frames s)(p := None)\<rparr>)))"

subsection \<open>The consumer\<close>

text \<open>
  The number of resumptions a frame has left, plus one when it is not at its final suspend
  point: the measure under which the pull loop terminates.
\<close>

definition remaining :: "frame \<Rightarrow> nat" where
  "remaining f =
     (case point f of
        InitialSuspend \<Rightarrow> 2 + nat (sint (end' f) - sint (start f))
      | YieldSuspend \<Rightarrow> 1 + nat (sint (end' f) - sint (start f))
      | FinalSuspend \<Rightarrow> 0)"

definition remaining_of :: "generator \<Rightarrow> store \<Rightarrow> nat" where
  "remaining_of g s = (case frame_of g s of Inl e \<Rightarrow> 0 | Inr f \<Rightarrow> remaining f)"

lemma INT_MAX_sint: "sint INT_MAX = 2147483647"
  by (simp add: INT_MAX_def)

lemma sint_le_INT_MAX: "sint (x :: cint) \<le> 2147483647"
  using sint_lt [of x] by simp

lemma sint_ge_INT_MIN: "- 2147483648 \<le> sint (x :: cint)"
  using sint_ge [of x] by simp

lemma sint_eq_INT_MAX: "sint (x :: cint) = 2147483647 \<Longrightarrow> x = INT_MAX"
  using INT_MAX_sint by (metis signed_word_eqI)

lemma sint_succ: "x \<noteq> INT_MAX \<Longrightarrow> sint (x + 1 :: cint) = sint x + 1"
proof -
  assume "x \<noteq> INT_MAX"
  then have "sint x \<noteq> 2147483647" using sint_eq_INT_MAX by blast
  then have "sint x + 1 \<le> 2147483647" using sint_le_INT_MAX [of x] by linarith
  moreover have "- 2147483648 \<le> sint x + 1" using sint_ge_INT_MIN [of x] by linarith
  ultimately have "signed_take_bit 31 (sint x + 1) = sint x + 1"
    by (simp add: signed_take_bit_int_eq_self)
  then show ?thesis by (simp add: sint_word_ariths)
qed

lemma resume_remaining: "resume f = Inr f' \<Longrightarrow> remaining f' < remaining f"
  by (auto simp: resume_def loop_test_def yield_value_def remaining_def word_sless_alt sint_succ
      split: suspend_point.splits if_splits)

lemma next_remaining:
  "Generator_next g s = Inr (v, s') \<Longrightarrow> remaining_of g s' < remaining_of g s"
  by (auto simp: Generator_next_def remaining_of_def frame_of_def resume_remaining
      split: option.splits sum.splits)

text \<open>
  The pull loop of \<^verbatim>\<open>main\<close>,
  \<^verbatim>\<open>while (!g.done()) { std::cout << g.next() << " "; }\<close>, with what the body does to
  the value as the parameter \<open>consume\<close>.
\<close>

function pull_loop ::
  "('a \<Rightarrow> cint \<Rightarrow> 'a) \<Rightarrow> generator \<Rightarrow> store \<Rightarrow> 'a \<Rightarrow> error + ('a \<times> store)" where
  "pull_loop consume g s out =
     (case Generator_done g s of
        Inl e \<Rightarrow> Inl e
      | Inr d \<Rightarrow>
          (if d then Inr (out, s)
           else (case Generator_next g s of
                   Inl e \<Rightarrow> Inl e
                 | Inr (v, s') \<Rightarrow> pull_loop consume g s' (consume out v))))"
  by pat_completeness auto
termination
  by (relation "measure (\<lambda>(consume, g, s, out). remaining_of g s)")
    (auto simp: next_remaining)

declare pull_loop.simps [simp del]

text \<open>
  What \<^verbatim>\<open>std::cout << v\<close> writes for an integer: its decimal digits, after a minus
  sign when it is negative.
\<close>

fun digits :: "nat \<Rightarrow> string" where
  "digits n =
     (if n < 10 then [''0123456789'' ! n]
      else digits (n div 10) @ [''0123456789'' ! (n mod 10)])"

declare digits.simps [simp del]

definition show_int :: "int \<Rightarrow> string" where
  "show_int i = (if i < 0 then CHR ''-'' # digits (nat (- i)) else digits (nat i))"

text \<open>The body of the loop in \<^verbatim>\<open>main\<close>: \<^verbatim>\<open>std::cout << g.next() << " "\<close>.\<close>

definition print_item :: "string \<Rightarrow> cint \<Rightarrow> string" where
  "print_item out v = out @ show_int (sint v) @ '' ''"

text \<open>
  \<^verbatim>\<open>main\<close> of the generator demo: the text written to standard output and the free
  store after the destructor of \<^verbatim>\<open>g\<close> has run. The generator returned by
  \<^verbatim>\<open>counter(1, 5)\<close> initialises \<^verbatim>\<open>g\<close> directly: no copy is made.
\<close>

definition main_coroutines :: "cint \<Rightarrow> error + (string \<times> store)" where
  "main_coroutines v0 =
     (let (g, s) = counter v0 1 5 empty_store in
      case pull_loop print_item g s [] of
        Inl e \<Rightarrow> Inl e
      | Inr (out, s') \<Rightarrow>
          (case Generator_dtor g s' of Inl e \<Rightarrow> Inl e | Inr s'' \<Rightarrow> Inr (out, s'')))"

text \<open>The \<open>n\<close> consecutive integers from \<open>a\<close> on.\<close>

fun values_from :: "cint \<Rightarrow> nat \<Rightarrow> cint list" where
  "values_from a 0 = []"
| "values_from a (Suc n) = a # values_from (a + 1) n"

text \<open>The half-open range \<open>a, a + 1, \<dots>, b - 1\<close>.\<close>

definition range_values :: "cint \<Rightarrow> cint \<Rightarrow> cint list" where
  "range_values a b = values_from a (nat (sint b - sint a))"

text \<open>
  Successive calls of \<^verbatim>\<open>next()\<close> without a look at \<^verbatim>\<open>done()\<close>: the values
  returned by at most \<open>n\<close> calls, up to the first call that is undefined, and the free
  store they leave.
\<close>

fun next_values :: "nat \<Rightarrow> generator \<Rightarrow> store \<Rightarrow> cint list" where
  "next_values 0 g s = []"
| "next_values (Suc n) g s =
     (case Generator_next g s of
        Inl e \<Rightarrow> []
      | Inr (v, s') \<Rightarrow> v # next_values n g s')"

fun after_nexts :: "nat \<Rightarrow> generator \<Rightarrow> store \<Rightarrow> store" where
  "after_nexts 0 g s = s"
| "after_nexts (Suc n) g s =
     (case Generator_next g s of
        Inl e \<Rightarrow> s
      | Inr (v, s') \<Rightarrow> after_nexts n g s')"

text \<open>The position of a suspension point in the life of a frame.\<close>

fun stage :: "suspend_point \<Rightarrow> nat" where
  "stage InitialSuspend = 0"
| "stage YieldSuspend = 1"
| "stage FinalSuspend = 2"

text \<open>
  What the promise of a frame of \<^verbatim>\<open>counter(a, b)\<close> holds at each suspension point:
  the value it was created with before the first resumption; at a \<^verbatim>\<open>co_yield\<close> the
  value just yielded, which lies in the range; at the final suspension the last value that
  was yielded, \<open>b - 1\<close>, or still the initial one when the range is empty.
\<close>

definition stored_ok :: "cint \<Rightarrow> cint \<Rightarrow> cint \<Rightarrow> frame \<Rightarrow> bool" where
  "stored_ok v0 a b f =
     (end' f = b \<and>
      (case point f of
         InitialSuspend \<Rightarrow> start f = a \<and> mValue f = v0
       | YieldSuspend \<Rightarrow> mValue f = start f \<and> a \<le>s start f \<and> start f <s b
       | FinalSuspend \<Rightarrow> mValue f = (if a <s b then b - 1 else v0)))"

text \<open>
  \<^verbatim>\<open>Generator\<close> declares a destructor and neither a copy nor a move operation. The
  language then declares its copy constructor implicitly, as defaulted: it copies
  \<^verbatim>\<open>mCoroHdl\<close>. No move constructor is declared, so initialising a generator from
  \<^verbatim>\<open>std::move(g)\<close> selects the copy constructor as well and leaves \<^verbatim>\<open>g\<close> as
  it was.
\<close>

definition Generator_copy_ctor :: "generator \<Rightarrow> generator" where
  "Generator_copy_ctor g = \<lparr>mCoroHdl = mCoroHdl g\<rparr>"

text \<open>
  \<^verbatim>\<open>Generator<int> h = std::move(g);\<close>: the new object and the source after the
  initialisation.
\<close>

definition Generator_move_init :: "generator \<Rightarrow> generator \<times> generator" where
  "Generator_move_init g = (Generator_copy_ctor g, g)"

section \<open>The constraint vocabulary (cpp/concepts/main.cc)\<close>

subsection \<open>Types\<close>

text \<open>
  The concepts of the program are predicates on packs of types, so types are data here.
  The integral types are \<^verbatim>\<open>bool\<close> and the signed and unsigned integer types from
  \<^verbatim>\<open>short\<close> to \<^verbatim>\<open>long long\<close>, with the widths of the LP64 data model; the
  character types are left out. Types are taken without reference and cv-qualifiers: all
  arguments of a call are prvalues, as they are in \<^verbatim>\<open>main\<close>.
\<close>

datatype itype =
  IBool | IShort | IUShort | IInt | IUInt | ILong | IULong | ILongLong | IULongLong

text \<open>Conversion rank, width in bits, signedness, and the unsigned type of the same rank.\<close>

fun conv_rank :: "itype \<Rightarrow> nat" where
  "conv_rank IBool = 0"
| "conv_rank IShort = 1"
| "conv_rank IUShort = 1"
| "conv_rank IInt = 2"
| "conv_rank IUInt = 2"
| "conv_rank ILong = 3"
| "conv_rank IULong = 3"
| "conv_rank ILongLong = 4"
| "conv_rank IULongLong = 4"

fun width :: "itype \<Rightarrow> nat" where
  "width IBool = 1"
| "width IShort = 16"
| "width IUShort = 16"
| "width IInt = 32"
| "width IUInt = 32"
| "width ILong = 64"
| "width IULong = 64"
| "width ILongLong = 64"
| "width IULongLong = 64"

fun is_signed :: "itype \<Rightarrow> bool" where
  "is_signed IShort = True"
| "is_signed IInt = True"
| "is_signed ILong = True"
| "is_signed ILongLong = True"
| "is_signed t = False"

fun to_unsigned :: "itype \<Rightarrow> itype" where
  "to_unsigned IShort = IUShort"
| "to_unsigned IInt = IUInt"
| "to_unsigned ILong = IULong"
| "to_unsigned ILongLong = IULongLong"
| "to_unsigned t = t"

text \<open>
  Integral promotion and the usual arithmetic conversions on integral types: the type in
  which a built-in binary operator computes.
\<close>

definition promote :: "itype \<Rightarrow> itype" where
  "promote t = (if conv_rank t < conv_rank IInt then IInt else t)"

definition uac_int :: "itype \<Rightarrow> itype \<Rightarrow> itype" where
  "uac_int l r =
     (let a = promote l; b = promote r in
      if a = b then a
      else if is_signed a = is_signed b then (if conv_rank a < conv_rank b then b else a)
      else (let u = (if is_signed a then b else a); s = (if is_signed a then a else b) in
            if conv_rank s \<le> conv_rank u then u
            else if width u < width s then s
            else to_unsigned s))"

text \<open>The values an integral type represents.\<close>

definition in_range :: "itype \<Rightarrow> int \<Rightarrow> bool" where
  "in_range t v =
     (if is_signed t then - (2 ^ (width t - 1)) \<le> v \<and> v < 2 ^ (width t - 1)
      else 0 \<le> v \<and> v < 2 ^ width t)"

text \<open>
  A class type is described by the two members the program's classes declare,
  \<^verbatim>\<open>operator*\<close> and \<^verbatim>\<open>operator+\<close>, each taking a \<^verbatim>\<open>const\<close> reference to the
  class: whether the member is declared, whether it is \<^verbatim>\<open>noexcept\<close>, and whether it
  returns (a reference to) the class itself or an integral type. \<open>TStub\<close> is the class
  template \<^verbatim>\<open>Stub\<close> of the program; \<open>TClass\<close> is any other class, given by its name
  and its two members.
\<close>

datatype result_type = Self | Scalar itype

datatype decl = NotDeclared | Declared bool result_type

datatype ctype =
    TIntegral itype
  | TFloat
  | TDouble
  | TLongDouble
  | TStub bool bool bool
  | TClass string decl decl

datatype binop = Star | Plus

text \<open>
  The members of \<^verbatim>\<open>Stub<nexcept, operatorStar, validReturnType>\<close>:
  \<^verbatim>\<open>Stub& operator*(const Stub&) noexcept(nexcept) requires(operatorStar && validReturnType)\<close>
  and
  \<^verbatim>\<open>int operator+(const Stub&) noexcept(nexcept) requires(operatorStar && not validReturnType)\<close>.
  A member whose requires-clause is false does not take part in overload resolution.
\<close>

definition Stub_decl :: "binop \<Rightarrow> bool \<Rightarrow> bool \<Rightarrow> bool \<Rightarrow> decl" where
  "Stub_decl op nexcept operatorStar validReturnType =
     (case op of
        Star \<Rightarrow> (if operatorStar \<and> validReturnType then Declared nexcept Self else NotDeclared)
      | Plus \<Rightarrow> (if operatorStar \<and> \<not> validReturnType then Declared nexcept (Scalar IInt)
                 else NotDeclared))"

definition NoMultiply :: ctype where "NoMultiply = TStub True False True"
definition ValidClass :: ctype where "ValidClass = TStub True True True"
definition NotNoexcept :: ctype where "NotNoexcept = TStub False True True"
definition DifferentReturnType :: ctype where "DifferentReturnType = TStub True True False"

subsection \<open>The type of a fold expression\<close>

text \<open>
  The arithmetic types are the integral and the floating-point types. Two arithmetic
  operands are brought to a common type: the larger floating-point type if one of them is
  floating-point, the result of the integral conversions otherwise.
\<close>

fun is_arithmetic :: "ctype \<Rightarrow> bool" where
  "is_arithmetic (TStub n s v) = False"
| "is_arithmetic (TClass c m p) = False"
| "is_arithmetic t = True"

fun usual_arithmetic_conversions :: "ctype \<Rightarrow> ctype \<Rightarrow> ctype" where
  "usual_arithmetic_conversions (TIntegral a) (TIntegral b) = TIntegral (uac_int a b)"
| "usual_arithmetic_conversions l r =
     (if l = TLongDouble \<or> r = TLongDouble then TLongDouble
      else if l = TDouble \<or> r = TDouble then TDouble
      else TFloat)"

text \<open>The member \<^verbatim>\<open>operator*\<close> or \<^verbatim>\<open>operator+\<close> of a type, if it is a class.\<close>

fun member_decl :: "binop \<Rightarrow> ctype \<Rightarrow> decl" where
  "member_decl op (TStub n s v) = Stub_decl op n s v"
| "member_decl Star (TClass c m p) = m"
| "member_decl Plus (TClass c m p) = p"
| "member_decl op t = NotDeclared"

text \<open>
  The type of \<^verbatim>\<open>l * r\<close> or \<^verbatim>\<open>l + r\<close>, or \<open>None\<close> when the expression is
  ill-formed. Two arithmetic operands use the built-in operator. A class operand uses its
  member, which accepts an operand of the same class only (the classes have no conversions).
\<close>

definition binop_type :: "binop \<Rightarrow> ctype \<Rightarrow> ctype \<Rightarrow> ctype option" where
  "binop_type op l r =
     (if is_arithmetic l \<and> is_arithmetic r then Some (usual_arithmetic_conversions l r)
      else if l = r then
        (case member_decl op l of
           NotDeclared \<Rightarrow> None
         | Declared n Self \<Rightarrow> Some l
         | Declared n (Scalar t) \<Rightarrow> Some (TIntegral t))
      else None)"

text \<open>
  The unary left folds \<^verbatim>\<open>(... * args)\<close> and \<^verbatim>\<open>(... + args)\<close>:
  \<^verbatim>\<open>((a1 op a2) op a3) \<dots>\<close>; over an empty pack they are ill-formed.
\<close>

fun fold_left_type :: "binop \<Rightarrow> ctype \<Rightarrow> ctype list \<Rightarrow> ctype option" where
  "fold_left_type op acc [] = Some acc"
| "fold_left_type op acc (t # ts) =
     (case binop_type op acc t of None \<Rightarrow> None | Some r \<Rightarrow> fold_left_type op r ts)"

fun fold_type :: "binop \<Rightarrow> ctype list \<Rightarrow> ctype option" where
  "fold_type op [] = None"
| "fold_type op (t # ts) = fold_left_type op t ts"

subsection \<open>The predicates\<close>

text \<open>
  \<^verbatim>\<open>are_same_v<T, Ts...>\<close> is the conjunction of \<^verbatim>\<open>std::is_same<T, Ts>\<close> over
  \<^verbatim>\<open>Ts\<close>. It has a first parameter that is not a pack, so it is ill-formed (\<open>None\<close>)
  for an empty argument list.
\<close>

fun are_same_v :: "ctype list \<Rightarrow> bool option" where
  "are_same_v [] = None"
| "are_same_v (T # Ts) = Some (list_all (\<lambda>U. T = U) Ts)"

text \<open>
  The concept \<^verbatim>\<open>Multipliable\<close> is a requires-expression with three requirements: the
  fold \<^verbatim>\<open>(... * args)\<close> is well-formed, \<^verbatim>\<open>are_same_v<Args...>\<close> holds, and
  \<^verbatim>\<open>sizeof...(Args) > 1\<close>. An ill-formed requirement makes it false.
\<close>

definition Multipliable :: "ctype list \<Rightarrow> bool" where
  "Multipliable Args =
     (fold_type Star Args \<noteq> None \<and> are_same_v Args = Some True \<and> length Args > 1)"

text \<open>
  The predicate as the specification words it, with four clauses: the types are identical,
  there are at least two of them, the fold with the multiplication operator is well-formed,
  and its result type is the operand type.
\<close>

definition Multipliable_spec :: "ctype list \<Rightarrow> bool" where
  "Multipliable_spec Args =
     (case Args of
        [] \<Rightarrow> False
      | T # Ts \<Rightarrow>
          list_all (\<lambda>U. T = U) Ts \<and> 2 \<le> length Args \<and> fold_type Star Args \<noteq> None \<and>
          fold_type Star Args = Some T)"

text \<open>\<^verbatim>\<open>Integral<T>\<close> is \<^verbatim>\<open>std::integral<T>\<close>.\<close>

definition Integral :: "ctype \<Rightarrow> bool" where
  "Integral T = (case T of TIntegral t \<Rightarrow> True | _ \<Rightarrow> False)"

subsection \<open>Values and the reducers\<close>

text \<open>
  The values of the model are the integers of the integral types. A built-in operator
  converts both operands to the common type and computes there: a signed result that the
  type does not represent is undefined behaviour, an unsigned result is reduced modulo
  \<open>2 ^ width\<close>.
\<close>

datatype cvalue = Integer itype int

fun type_of :: "cvalue \<Rightarrow> ctype" where
  "type_of (Integer t v) = TIntegral t"

definition convert :: "itype \<Rightarrow> int \<Rightarrow> int" where
  "convert t v = (if is_signed t then v else v mod 2 ^ width t)"

definition apply_binop :: "binop \<Rightarrow> int \<Rightarrow> int \<Rightarrow> int" where
  "apply_binop op x y = (case op of Star \<Rightarrow> x * y | Plus \<Rightarrow> x + y)"

fun binop_value :: "binop \<Rightarrow> cvalue \<Rightarrow> cvalue \<Rightarrow> error + cvalue" where
  "binop_value op (Integer t1 v1) (Integer t2 v2) =
     (let t = uac_int t1 t2; r = apply_binop op (convert t v1) (convert t v2) in
      if is_signed t then (if in_range t r then Inr (Integer t r) else Inl SignedOverflow)
      else Inr (Integer t (r mod 2 ^ width t)))"

fun fold_left_value :: "binop \<Rightarrow> cvalue \<Rightarrow> cvalue list \<Rightarrow> error + cvalue" where
  "fold_left_value op acc [] = Inr acc"
| "fold_left_value op acc (x # xs) =
     (case binop_value op acc x of Inl e \<Rightarrow> Inl e | Inr r \<Rightarrow> fold_left_value op r xs)"

fun fold_value :: "binop \<Rightarrow> cvalue list \<Rightarrow> error + cvalue" where
  "fold_value op [] = Inl IllFormed"
| "fold_value op (x # xs) = fold_left_value op x xs"

text \<open>
  \<^verbatim>\<open>Add\<close> requires \<^verbatim>\<open>are_same_v<Args...>\<close> and returns \<^verbatim>\<open>(... + args)\<close>;
  \<^verbatim>\<open>Multiply\<close> requires \<^verbatim>\<open>Multipliable<Args...>\<close> and returns
  \<^verbatim>\<open>(... * args)\<close>. A call whose constraint is not satisfied does not compile.
\<close>

definition Add :: "cvalue list \<Rightarrow> error + cvalue" where
  "Add args =
     (if are_same_v (map type_of args) = Some True then fold_value Plus args
      else Inl ConstraintNotSatisfied)"

definition Multiply :: "cvalue list \<Rightarrow> error + cvalue" where
  "Multiply args =
     (if Multipliable (map type_of args) then fold_value Star args
      else Inl ConstraintNotSatisfied)"

text \<open>
  \<^verbatim>\<open>std::cout << value << std::endl\<close> writes the decimal digits and a newline;
  \<^verbatim>\<open>Print\<close> accepts a value of a type that satisfies \<^verbatim>\<open>Integral\<close>.
\<close>

definition endl :: string where
  "endl = [CHR 0x0A]"

fun show_value :: "cvalue \<Rightarrow> string" where
  "show_value (Integer t v) = show_int v"

definition Print :: "cvalue \<Rightarrow> string \<Rightarrow> error + string" where
  "Print v out =
     (if Integral (type_of v) then Inr (out @ show_value v @ endl)
      else Inl ConstraintNotSatisfied)"

text \<open>An integer literal such as \<^verbatim>\<open>14\<close> is a value of type \<^verbatim>\<open>int\<close>.\<close>

definition int_literal :: "int \<Rightarrow> cvalue" where
  "int_literal n = Integer IInt n"

text \<open>\<^verbatim>\<open>main\<close> of the constraint demo: the text written to standard output.\<close>

definition main_concepts :: "error + string" where
  "main_concepts =
     (case Add (map int_literal [1, 2, 3, 4, 5]) of
        Inl e \<Rightarrow> Inl e
      | Inr result \<Rightarrow>
          (let out = show_value result @ endl in
           case Multiply (map int_literal [2, 3, 4]) of
             Inl e \<Rightarrow> Inl e
           | Inr m \<Rightarrow>
               (let out = out @ show_value m @ endl in
                Print (int_literal 14) out)))"

section \<open>Properties of the generator\<close>

subsection \<open>The pull loop over a counter\<close>

lemma frame_of_upd:
  "mCoroHdl g = Some p \<Longrightarrow> frame_of g (s\<lparr>frames := (frames s)(p \<mapsto> f)\<rparr>) = Inr f"
  by (simp add: frame_of_def)

lemma frame_of_handle: "frame_of g s = Inr f \<Longrightarrow> \<exists>p. mCoroHdl g = Some p \<and> frames s p = Some f"
  by (auto simp: frame_of_def split: option.splits)

lemma pull_loop_step:
  assumes "frame_of g s = Inr f"
  shows "pull_loop c g s out =
     (if point f = FinalSuspend then Inr (out, s)
      else (case resume f of
              Inl e \<Rightarrow> Inl e
            | Inr f' \<Rightarrow> pull_loop c g (s\<lparr>frames := (frames s)(the (mCoroHdl g) \<mapsto> f')\<rparr>) (c out (mValue f'))))"
  using assms
  by (subst pull_loop.simps) (simp add: Generator_done_def Generator_next_def split: sum.splits)

lemma pull_from_yield:
  assumes "mCoroHdl g = Some p"
  shows "frames s p = Some \<lparr>point = YieldSuspend, start = x, end' = b, mValue = x\<rparr> \<Longrightarrow>
     sint b - sint x = int (Suc k) \<Longrightarrow>
     pull_loop c g s out =
       Inr (c (foldl c out (values_from (x + 1) k)) (b - 1),
            s\<lparr>frames := (frames s)(p \<mapsto> \<lparr>point = FinalSuspend, start = b, end' = b, mValue = b - 1\<rparr>)\<rparr>)"
proof (induction k arbitrary: x s out)
  case 0
  have xb: "x + 1 = b"
  proof -
    have "x \<noteq> INT_MAX" using 0(2) sint_le_INT_MAX [of b] INT_MAX_sint by auto
    then have "sint (x + 1) = sint b" using 0(2) by (simp add: sint_succ)
    then show ?thesis by (metis signed_word_eqI)
  qed
  have ne: "x \<noteq> INT_MAX" using 0(2) sint_le_INT_MAX [of b] INT_MAX_sint by auto
  have fo: "frame_of g s = Inr \<lparr>point = YieldSuspend, start = x, end' = b, mValue = x\<rparr>"
    using assms 0(1) by (simp add: frame_of_def)
  have r: "resume \<lparr>point = YieldSuspend, start = x, end' = b, mValue = x\<rparr>
      = Inr \<lparr>point = FinalSuspend, start = b, end' = b, mValue = x\<rparr>"
    using ne xb by (simp add: resume_def loop_test_def word_sless_alt)
  have x: "x = b - 1" using xb by auto
  show ?case
    apply (subst pull_loop_step [OF fo])
    apply (simp add: r assms)
    apply (subst pull_loop_step [OF frame_of_upd [OF assms]])
    apply (simp add: x)
    done
next
  case (Suc k)
  have ne: "x \<noteq> INT_MAX" using Suc(3) sint_le_INT_MAX [of b] INT_MAX_sint by auto
  have lt: "x + 1 <s b" using Suc(3) ne by (simp add: word_sless_alt sint_succ)
  have fo: "frame_of g s = Inr \<lparr>point = YieldSuspend, start = x, end' = b, mValue = x\<rparr>"
    using assms Suc(2) by (simp add: frame_of_def)
  have r: "resume \<lparr>point = YieldSuspend, start = x, end' = b, mValue = x\<rparr>
      = Inr \<lparr>point = YieldSuspend, start = x + 1, end' = b, mValue = x + 1\<rparr>"
    using ne lt by (simp add: resume_def loop_test_def yield_value_def)
  let ?s = "s\<lparr>frames := (frames s)(p \<mapsto> \<lparr>point = YieldSuspend, start = x + 1, end' = b, mValue = x + 1\<rparr>)\<rparr>"
  have d: "sint b - sint (x + 1) = int (Suc k)" using Suc(3) ne by (simp add: sint_succ)
  have "pull_loop c g s out = pull_loop c g ?s (c out (x + 1))"
    by (subst pull_loop_step [OF fo]) (simp add: r assms)
  also have "\<dots> = Inr (c (foldl c out (values_from (x + 1) (Suc k))) (b - 1),
            s\<lparr>frames := (frames s)(p \<mapsto> \<lparr>point = FinalSuspend, start = b, end' = b, mValue = b - 1\<rparr>)\<rparr>)"
  proof -
    have ih: "pull_loop c g ?s (c out (x + 1)) =
        Inr (c (foldl c (c out (x + 1)) (values_from (x + 1 + 1) k)) (b - 1),
            ?s\<lparr>frames := (frames ?s)(p \<mapsto> \<lparr>point = FinalSuspend, start = b, end' = b, mValue = b - 1\<rparr>)\<rparr>)"
      by (rule Suc.IH) (simp_all add: d)
    have eq: "?s\<lparr>frames := (frames ?s)(p \<mapsto> \<lparr>point = FinalSuspend, start = b, end' = b, mValue = b - 1\<rparr>)\<rparr>
        = s\<lparr>frames := (frames s)(p \<mapsto> \<lparr>point = FinalSuspend, start = b, end' = b, mValue = b - 1\<rparr>)\<rparr>"
      by simp
    show ?thesis unfolding ih eq by simp
  qed
  finally show ?case .
qed

lemma pull_from_initial:
  assumes "mCoroHdl g = Some p"
    and "frames s p = Some \<lparr>point = InitialSuspend, start = a, end' = b, mValue = v0\<rparr>"
    and "a <s b"
  shows "pull_loop c g s out =
       Inr (foldl c out (range_values a b @ [b - 1]),
            s\<lparr>frames := (frames s)(p \<mapsto> \<lparr>point = FinalSuspend, start = b, end' = b, mValue = b - 1\<rparr>)\<rparr>)"
proof -
  obtain k where k: "sint b - sint a = int (Suc k)"
    using assms(3) by (metis word_sless_alt zero_less_diff zero_less_imp_eq_int gr0_implies_Suc diff_gt_0_iff_gt)
  have fo: "frame_of g s = Inr \<lparr>point = InitialSuspend, start = a, end' = b, mValue = v0\<rparr>"
    using assms by (simp add: frame_of_def)
  have r: "resume \<lparr>point = InitialSuspend, start = a, end' = b, mValue = v0\<rparr>
      = Inr \<lparr>point = YieldSuspend, start = a, end' = b, mValue = a\<rparr>"
    using assms(3) by (simp add: resume_def loop_test_def yield_value_def)
  let ?s = "s\<lparr>frames := (frames s)(p \<mapsto> \<lparr>point = YieldSuspend, start = a, end' = b, mValue = a\<rparr>)\<rparr>"
  have "pull_loop c g s out = pull_loop c g ?s (c out a)"
    by (subst pull_loop_step [OF fo]) (simp add: r assms)
  also have "\<dots> = Inr (c (foldl c (c out a) (values_from (a + 1) k)) (b - 1),
            ?s\<lparr>frames := (frames ?s)(p \<mapsto> \<lparr>point = FinalSuspend, start = b, end' = b, mValue = b - 1\<rparr>)\<rparr>)"
    by (rule pull_from_yield [OF assms(1)]) (simp_all add: k)
  also have "\<dots> = Inr (foldl c out (range_values a b @ [b - 1]),
            s\<lparr>frames := (frames s)(p \<mapsto> \<lparr>point = FinalSuspend, start = b, end' = b, mValue = b - 1\<rparr>)\<rparr>)"
  proof -
    have "nat (sint b - sint a) = Suc k" using k by simp
    then show ?thesis by (simp add: range_values_def)
  qed
  finally show ?thesis .
qed

lemma pull_from_initial_empty:
  assumes "mCoroHdl g = Some p"
    and "frames s p = Some \<lparr>point = InitialSuspend, start = a, end' = b, mValue = v0\<rparr>"
    and "\<not> a <s b"
  shows "pull_loop c g s out =
       Inr (c out v0,
            s\<lparr>frames := (frames s)(p \<mapsto> \<lparr>point = FinalSuspend, start = a, end' = b, mValue = v0\<rparr>)\<rparr>)"
proof -
  have fo: "frame_of g s = Inr \<lparr>point = InitialSuspend, start = a, end' = b, mValue = v0\<rparr>"
    using assms by (simp add: frame_of_def)
  have r: "resume \<lparr>point = InitialSuspend, start = a, end' = b, mValue = v0\<rparr>
      = Inr \<lparr>point = FinalSuspend, start = a, end' = b, mValue = v0\<rparr>"
    using assms(3) by (simp add: resume_def loop_test_def yield_value_def)
  show ?thesis
    apply (subst pull_loop_step [OF fo])
    apply (simp add: r assms)
    apply (subst pull_loop_step [OF frame_of_upd [OF assms(1)]])
    apply simp
    done
qed

lemma values_from_nth: "i < n \<Longrightarrow> values_from a n ! i = a + of_nat i"
  by (induction a n arbitrary: i rule: values_from.induct) (auto simp: nth_Cons split: nat.splits)

lemma values_from_length: "length (values_from a n) = n"
  by (induction a n rule: values_from.induct) auto

lemma values_from_map: "values_from a n = map (\<lambda>i. a + of_nat i) [0..<n]"
  by (rule nth_equalityI) (simp_all add: values_from_length values_from_nth)

lemma counter_frame:
  "counter v0 a b s0 = (g, s) \<Longrightarrow>
     mCoroHdl g = Some (fresh s0) \<and>
     frames s (fresh s0) = Some \<lparr>point = InitialSuspend, start = a, end' = b, mValue = v0\<rparr>"
  by (auto simp: counter_def Let_def)

lemma values_from_sint:
  "i < n \<Longrightarrow> sint a + int n \<le> 2147483648 \<Longrightarrow> sint (values_from a n ! i) = sint a + int i"
proof (induction a n arbitrary: i rule: values_from.induct)
  case (1 a)
  then show ?case by simp
next
  case (2 a n)
  show ?case
  proof (cases i)
    case 0
    then show ?thesis by simp
  next
    case (Suc j)
    have "sint a \<noteq> 2147483647" using 2(2,3) Suc by auto
    then have ne: "a \<noteq> INT_MAX" using INT_MAX_sint by auto
    have "sint (values_from (a + 1) n ! j) = sint (a + 1) + int j"
      using 2(2,3) Suc by (intro "2.IH") (simp_all add: sint_succ [OF ne])
    then show ?thesis using Suc by (simp add: sint_succ [OF ne])
  qed
qed

lemma range_values_sint:
  assumes "i < length (range_values a b)"
  shows "sint (range_values a b ! i) = sint a + int i"
proof -
  have i: "i < nat (sint b - sint a)"
    using assms by (simp add: range_values_def values_from_length)
  moreover have "sint a + int (nat (sint b - sint a)) \<le> 2147483648"
    using i sint_le_INT_MAX [of b] by linarith
  ultimately show ?thesis unfolding range_values_def by (rule values_from_sint)
qed

lemma range_values_length: "length (range_values a b) = nat (sint b - sint a)"
  by (simp add: range_values_def values_from_length)

lemma foldl_snoc: "foldl (\<lambda>vs v. vs @ [v]) acc xs = acc @ xs"
  by (induction xs arbitrary: acc) simp_all

text \<open>
  Over a non-empty range the pull loop consumes the values of the range in order, and then
  the last of them, \<open>b - 1\<close>, a second time: the call of \<^verbatim>\<open>next()\<close> that follows
  the last \<^verbatim>\<open>co_yield\<close> runs the producer to its final suspend point and returns the
  value that is still stored in the promise.
\<close>

lemma counter_pulled:
  assumes "a <s b" and "counter v0 a b s0 = (g, s)"
  shows "map_sum id fst (pull_loop (\<lambda>vs v. vs @ [v]) g s []) = Inr (range_values a b @ [b - 1])"
proof -
  note cf = counter_frame [OF assms(2)]
  show ?thesis
    by (simp add: pull_from_initial [OF conjunct1 [OF cf] conjunct2 [OF cf] assms(1)] foldl_snoc)
qed

section \<open>Claims about the generator\<close>

text \<open>
  Claim C1. Consumed by the pull protocol, \<^verbatim>\<open>counter(a, b)\<close> with \<open>a < b\<close> is
  claimed to produce exactly \<open>a, \<dots>, b - 1\<close>, and the demo to write \<^verbatim>\<open>1 2 3 4 \<close>
  with no extra value. The program writes \<^verbatim>\<open>1 2 3 4 4 \<close>: the last value appears
  twice (in general, see \<open>counter_pulled\<close>), whatever the promise held at the start.
\<close>

theorem main_coroutines_stdout:
  "map_sum id fst (main_coroutines v0) = Inr ''1 2 3 4 4 ''"
  by (simp add: pull_loop.simps digits.simps main_coroutines_def counter_def empty_store_def
      Generator_done_def Generator_next_def frame_of_def resume_def loop_test_def
      yield_value_def INT_MAX_def Generator_dtor_def print_item_def show_int_def word_sless_alt)

lemma next_at_final:
  "Generator_done g s = Inr True \<Longrightarrow> Generator_next g s = Inl ResumeAtFinalSuspend"
  by (auto simp: Generator_done_def Generator_next_def resume_def split: sum.splits)

lemma next_values_at_final:
  "Generator_done g s = Inr True \<Longrightarrow> next_values n g s = []"
  by (cases n) (simp_all add: next_at_final)

lemma after_nexts_at_final:
  "Generator_done g s = Inr True \<Longrightarrow> after_nexts n g s = s"
  by (cases n) (simp_all add: next_at_final)

text \<open>
  Claim C4. For every \<open>a\<close>, the generator \<^verbatim>\<open>counter(a, a)\<close> is at its final
  suspend point after the first \<^verbatim>\<open>next()\<close>, which returns the value the promise was
  created with; this is the only value any sequence of \<^verbatim>\<open>next()\<close> calls returns, and
  no returned value lies in the half-open interval from \<open>a\<close> to \<open>a\<close>.
\<close>

theorem counter_empty_range:
  "case counter v0 a a s0 of (g, s) \<Rightarrow>
     (\<exists>s'. Generator_next g s = Inr (v0, s') \<and> Generator_done g s' = Inr True) \<and>
     (\<forall>n. next_values n g s = (if n = 0 then [] else [v0]) \<and>
          (\<forall>v \<in> set (next_values n g s). \<not> (a \<le>s v \<and> v <s a)))"
proof -
  obtain g s where gs: "counter v0 a a s0 = (g, s)" by (cases "counter v0 a a s0")
  note cf = counter_frame [OF gs]
  let ?s = "s\<lparr>frames := (frames s)(fresh s0 \<mapsto> \<lparr>point = FinalSuspend, start = a, end' = a, mValue = v0\<rparr>)\<rparr>"
  have n: "Generator_next g s = Inr (v0, ?s)"
    using cf by (simp add: Generator_next_def frame_of_def resume_def loop_test_def)
  have d: "Generator_done g ?s = Inr True"
    using cf by (simp add: Generator_done_def frame_of_def)
  have vals: "next_values n g s = (if n = 0 then [] else [v0])" for n
    by (cases n) (simp_all add: n next_values_at_final [OF d])
  have "\<not> (a \<le>s v \<and> v <s a)" for v
    by (simp add: word_sle_eq word_sless_alt)
  with n d vals show ?thesis unfolding gs by auto
qed

theorem counter_empty_range_witness:
  "case counter 0 7 7 empty_store of (g, s) \<Rightarrow>
     (\<exists>s'. Generator_next g s = Inr (0, s') \<and> Generator_done g s' = Inr True) \<and>
     next_values 3 g s = [0] \<and> \<not> ((7 :: cint) \<le>s 0 \<and> (0 :: cint) <s 7)"
  using counter_empty_range [of 0 7 empty_store]
  by (auto split: prod.splits)

lemma resume_stage:
  "resume f = Inr f' \<Longrightarrow>
     point f \<noteq> FinalSuspend \<and> point f' \<noteq> InitialSuspend \<and> stage (point f) \<le> stage (point f')"
  by (auto simp: resume_def loop_test_def yield_value_def split: suspend_point.splits if_splits)

lemma next_frames:
  "Generator_next g s = Inr (v, s') \<Longrightarrow>
     \<exists>f f'. frame_of g s = Inr f \<and> resume f = Inr f' \<and> frame_of g s' = Inr f' \<and> v = mValue f'"
  by (auto simp: Generator_next_def frame_of_def split: sum.splits option.splits)

lemma after_nexts_stage:
  "frame_of g s = Inr f \<Longrightarrow> \<exists>f'. frame_of g (after_nexts n g s) = Inr f' \<and> stage (point f) \<le> stage (point f')"
proof (induction n arbitrary: s f)
  case 0
  then show ?case by simp
next
  case (Suc n)
  show ?case
  proof (cases "Generator_next g s")
    case (Inl e)
    then show ?thesis using Suc.prems by simp
  next
    case (Inr r)
    obtain v s' where r: "r = (v, s')" by (cases r)
    obtain f1 f2 where f: "frame_of g s = Inr f1" "resume f1 = Inr f2" "frame_of g s' = Inr f2"
      using next_frames Inr r by blast
    have "f1 = f" using f(1) Suc.prems by simp
    obtain f' where "frame_of g (after_nexts n g s') = Inr f'" "stage (point f2) \<le> stage (point f')"
      using Suc.IH [OF f(3)] by blast
    then show ?thesis using Inr r resume_stage [OF f(2)] \<open>f1 = f\<close> by auto
  qed
qed

lemma resume_stored_ok:
  assumes "stored_ok v0 a b f" and "resume f = Inr f'"
  shows "stored_ok v0 a b f'"
proof (cases "point f")
  case InitialSuspend
  then show ?thesis using assms
    by (auto simp: stored_ok_def resume_def loop_test_def yield_value_def)
next
  case YieldSuspend
  then have y: "mValue f = start f" "a \<le>s start f" "start f <s b" "end' f = b"
    using assms(1) by (simp_all add: stored_ok_def)
  have ne: "start f \<noteq> INT_MAX"
    using y(3) sint_le_INT_MAX [of b] INT_MAX_sint by (auto simp: word_sless_alt)
  have s1: "sint (start f + 1) = sint (start f) + 1" by (rule sint_succ [OF ne])
  have ab: "a <s b" using y(2,3) by (simp add: word_sle_eq word_sless_alt)
  show ?thesis
  proof (cases "start f + 1 <s b")
    case True
    then have "f' = f\<lparr>start := start f + 1, mValue := start f + 1, point := YieldSuspend\<rparr>"
      using assms(2) YieldSuspend ne y(4) by (simp add: resume_def loop_test_def yield_value_def)
    then show ?thesis using True y s1 by (simp add: stored_ok_def word_sle_eq)
  next
    case False
    then have f': "f' = f\<lparr>start := start f + 1, point := FinalSuspend\<rparr>"
      using assms(2) YieldSuspend ne y(4) by (simp add: resume_def loop_test_def)
    have "sint (start f + 1) = sint b"
      using False y(3) s1 by (simp add: word_sless_alt)
    then have "start f + 1 = b" by (metis signed_word_eqI)
    then have "start f = b - 1" by auto
    then show ?thesis using f' y ab by (simp add: stored_ok_def)
  qed
next
  case FinalSuspend
  then show ?thesis using assms(2) by (simp add: resume_def)
qed

lemma after_nexts_stored_ok:
  "frame_of g s = Inr f \<Longrightarrow> stored_ok v0 a b f \<Longrightarrow>
     \<exists>f'. frame_of g (after_nexts n g s) = Inr f' \<and> stored_ok v0 a b f'"
proof (induction n arbitrary: s f)
  case 0
  then show ?case by simp
next
  case (Suc n)
  show ?case
  proof (cases "Generator_next g s")
    case (Inl e)
    then show ?thesis using Suc.prems by simp
  next
    case (Inr r)
    obtain v s' where r: "r = (v, s')" by (cases r)
    obtain f1 f2 where f: "frame_of g s = Inr f1" "resume f1 = Inr f2" "frame_of g s' = Inr f2"
      using next_frames Inr r by blast
    have "f1 = f" using f(1) Suc.prems(1) by simp
    then have "stored_ok v0 a b f2" using resume_stored_ok [OF Suc.prems(2)] f(2) by simp
    then show ?thesis using Suc.IH [OF f(3)] Inr r by simp
  qed
qed

lemma counter_stored_ok:
  "counter v0 a b s0 = (g, s) \<Longrightarrow>
     \<exists>f. frame_of g (after_nexts n g s) = Inr f \<and> stored_ok v0 a b f"
proof -
  assume c: "counter v0 a b s0 = (g, s)"
  have "frame_of g s = Inr \<lparr>point = InitialSuspend, start = a, end' = b, mValue = v0\<rparr>"
    using counter_frame [OF c] by (simp add: frame_of_def)
  moreover have "stored_ok v0 a b \<lparr>point = InitialSuspend, start = a, end' = b, mValue = v0\<rparr>"
    by (simp add: stored_ok_def)
  ultimately show ?thesis by (rule after_nexts_stored_ok)
qed

lemma next_progress:
  assumes "frame_of g s = Inr f"
    and "point f = InitialSuspend \<or> point f = YieldSuspend \<and> start f <s end' f"
  shows "\<exists>v s' f'. Generator_next g s = Inr (v, s') \<and> frame_of g s' = Inr f' \<and> v = mValue f' \<and>
           point f' =
             (if (if point f = InitialSuspend then start f else start f + 1) <s end' f
              then YieldSuspend else FinalSuspend)"
proof -
  obtain p where p: "mCoroHdl g = Some p" "frames s p = Some f"
    using frame_of_handle [OF assms(1)] by blast
  have "\<exists>f'. resume f = Inr f' \<and>
      point f' =
        (if (if point f = InitialSuspend then start f else start f + 1) <s end' f
         then YieldSuspend else FinalSuspend)"
    using assms(2)
  proof
    assume "point f = InitialSuspend"
    then show ?thesis by (simp add: resume_def loop_test_def yield_value_def)
  next
    assume y: "point f = YieldSuspend \<and> start f <s end' f"
    then have "sint (start f) < sint (end' f)" by (simp add: word_sless_alt)
    then have "start f \<noteq> INT_MAX" using sint_le_INT_MAX [of "end' f"] INT_MAX_sint by auto
    with y show ?thesis by (simp add: resume_def loop_test_def yield_value_def)
  qed
  then obtain f' where f': "resume f = Inr f'"
    "point f' =
        (if (if point f = InitialSuspend then start f else start f + 1) <s end' f
         then YieldSuspend else FinalSuspend)"
    by blast
  let ?s = "s\<lparr>frames := (frames s)(p \<mapsto> f')\<rparr>"
  have "Generator_next g s = Inr (mValue f', ?s)"
    using assms(1) p f'(1) by (simp add: Generator_next_def)
  moreover have "frame_of g ?s = Inr f'" by (rule frame_of_upd [OF p(1)])
  ultimately show ?thesis using f'(2) by blast
qed

lemma counter_progress:
  assumes "counter v0 a b s0 = (g, s)"
    and "Generator_done g (after_nexts n g s) = Inr False"
  shows "\<exists>v s' f'. Generator_next g (after_nexts n g s) = Inr (v, s') \<and>
           frame_of g s' = Inr f' \<and> (point f' = YieldSuspend \<or> point f' = FinalSuspend)"
proof -
  obtain f where f: "frame_of g (after_nexts n g s) = Inr f" "stored_ok v0 a b f"
    using counter_stored_ok [OF assms(1)] by blast
  have nf: "point f \<noteq> FinalSuspend"
    using assms(2) f(1) by (simp add: Generator_done_def)
  have c: "point f = InitialSuspend \<or> point f = YieldSuspend \<and> start f <s end' f"
    using nf f(2) by (cases "point f") (simp_all add: stored_ok_def)
  obtain v s' f' where n: "Generator_next g (after_nexts n g s) = Inr (v, s')"
    "frame_of g s' = Inr f'"
    "point f' =
       (if (if point f = InitialSuspend then start f else start f + 1) <s end' f
        then YieldSuspend else FinalSuspend)"
    using next_progress [OF f(1) c] by blast
  have "point f' = YieldSuspend \<or> point f' = FinalSuspend" using n(3) by simp
  with n(1,2) show ?thesis by blast
qed

text \<open>
  Claim C5. A generator is created at its initial suspend point, with \<^verbatim>\<open>done()\<close> false
  and nothing of the producer run: the frame holds the two arguments and the promise is
  untouched. A call of \<^verbatim>\<open>next()\<close> that returns starts at the initial or at a yield
  suspension and ends at a yield or at the final suspension, never at an earlier stage, and
  the same holds over any number of calls. At the final suspension \<^verbatim>\<open>next()\<close> is
  undefined and changes nothing, so \<^verbatim>\<open>done()\<close> stays true. And \<^verbatim>\<open>next()\<close>
  does move: at the initial suspension, and at a yield suspension inside the loop, it returns
  and leaves the frame at a yield suspension if the loop test holds for the next value, at
  the final suspension if not; so it does in every state of \<^verbatim>\<open>counter(a, b)\<close>, after
  any number of calls, in which \<^verbatim>\<open>done()\<close> is false.
\<close>

theorem generator_state_machine:
  "(case counter v0 a b s0 of (g, s) \<Rightarrow>
      Generator_done g s = Inr False \<and>
      frame_of g s = Inr \<lparr>point = InitialSuspend, start = a, end' = b, mValue = v0\<rparr>) \<and>
   (\<forall>g s v s' f f'.
      Generator_next g s = Inr (v, s') \<and> frame_of g s = Inr f \<and> frame_of g s' = Inr f' \<longrightarrow>
        (point f = InitialSuspend \<or> point f = YieldSuspend) \<and>
        (point f' = YieldSuspend \<or> point f' = FinalSuspend) \<and>
        stage (point f) \<le> stage (point f')) \<and>
   (\<forall>g s n.
      Generator_done g s = Inr True \<longrightarrow>
        Generator_next g s = Inl ResumeAtFinalSuspend \<and>
        Generator_done g (after_nexts n g s) = Inr True) \<and>
   (\<forall>g s n f.
      frame_of g s = Inr f \<longrightarrow>
        (\<exists>f'. frame_of g (after_nexts n g s) = Inr f' \<and> stage (point f) \<le> stage (point f'))) \<and>
   (\<forall>g s f.
      frame_of g s = Inr f \<and>
      (point f = InitialSuspend \<or> point f = YieldSuspend \<and> start f <s end' f) \<longrightarrow>
        (\<exists>v s' f'. Generator_next g s = Inr (v, s') \<and> frame_of g s' = Inr f' \<and>
           v = mValue f' \<and>
           point f' =
             (if (if point f = InitialSuspend then start f else start f + 1) <s end' f
              then YieldSuspend else FinalSuspend))) \<and>
   (case counter v0 a b s0 of (g, s) \<Rightarrow>
      \<forall>n. Generator_done g (after_nexts n g s) = Inr False \<longrightarrow>
        (\<exists>v s' f'. Generator_next g (after_nexts n g s) = Inr (v, s') \<and>
           frame_of g s' = Inr f' \<and> (point f' = YieldSuspend \<or> point f' = FinalSuspend)))"
proof (intro conjI allI impI)
  show "case counter v0 a b s0 of (g, s) \<Rightarrow>
      Generator_done g s = Inr False \<and>
      frame_of g s = Inr \<lparr>point = InitialSuspend, start = a, end' = b, mValue = v0\<rparr>"
    by (simp add: counter_def Let_def Generator_done_def frame_of_def)
next
  fix g s v s' f f'
  assume h: "Generator_next g s = Inr (v, s') \<and> frame_of g s = Inr f \<and> frame_of g s' = Inr f'"
  then have r: "resume f = Inr f'" using next_frames by fastforce
  note st = resume_stage [OF r]
  show "point f = InitialSuspend \<or> point f = YieldSuspend"
    using st by (cases "point f") simp_all
  show "point f' = YieldSuspend \<or> point f' = FinalSuspend"
    using st by (cases "point f'") simp_all
  show "stage (point f) \<le> stage (point f')" using st by simp
next
  fix g s n
  assume d: "Generator_done g s = Inr True"
  show "Generator_next g s = Inl ResumeAtFinalSuspend" by (rule next_at_final [OF d])
  show "Generator_done g (after_nexts n g s) = Inr True"
    by (simp add: after_nexts_at_final [OF d] d)
next
  fix g s n f
  assume "frame_of g s = Inr f"
  then show "\<exists>f'. frame_of g (after_nexts n g s) = Inr f' \<and> stage (point f) \<le> stage (point f')"
    by (rule after_nexts_stage)
next
  fix g s f
  assume "frame_of g s = Inr f \<and>
      (point f = InitialSuspend \<or> point f = YieldSuspend \<and> start f <s end' f)"
  then show "\<exists>v s' f'. Generator_next g s = Inr (v, s') \<and> frame_of g s' = Inr f' \<and>
           v = mValue f' \<and>
           point f' =
             (if (if point f = InitialSuspend then start f else start f + 1) <s end' f
              then YieldSuspend else FinalSuspend)"
    using next_progress by blast
next
  obtain g s where c: "counter v0 a b s0 = (g, s)" by (cases "counter v0 a b s0")
  show "case counter v0 a b s0 of (g, s) \<Rightarrow>
      \<forall>n. Generator_done g (after_nexts n g s) = Inr False \<longrightarrow>
        (\<exists>v s' f'. Generator_next g (after_nexts n g s) = Inr (v, s') \<and>
           frame_of g s' = Inr f' \<and> (point f' = YieldSuspend \<or> point f' = FinalSuspend))"
    unfolding c using counter_progress [OF c] by simp
qed

theorem generator_state_machine_witness:
  "counter 0 1 5 empty_store =
     (\<lparr>mCoroHdl = Some 0\<rparr>,
      \<lparr>frames = [0 \<mapsto> \<lparr>point = InitialSuspend, start = 1, end' = 5, mValue = 0\<rparr>], fresh = 1\<rparr>) \<and>
   Generator_done \<lparr>mCoroHdl = Some 0\<rparr>
     \<lparr>frames = [0 \<mapsto> \<lparr>point = InitialSuspend, start = 1, end' = 5, mValue = 0\<rparr>], fresh = 1\<rparr>
     = Inr False \<and>
   Generator_next \<lparr>mCoroHdl = Some 0\<rparr>
     \<lparr>frames = [0 \<mapsto> \<lparr>point = InitialSuspend, start = 1, end' = 5, mValue = 0\<rparr>], fresh = 1\<rparr>
     = Inr (1, \<lparr>frames = [0 \<mapsto> \<lparr>point = YieldSuspend, start = 1, end' = 5, mValue = 1\<rparr>], fresh = 1\<rparr>) \<and>
   stage InitialSuspend \<le> stage YieldSuspend \<and>
   Generator_done \<lparr>mCoroHdl = Some 0\<rparr>
     \<lparr>frames = [0 \<mapsto> \<lparr>point = FinalSuspend, start = 5, end' = 5, mValue = 4\<rparr>], fresh = 1\<rparr>
     = Inr True \<and>
   Generator_next \<lparr>mCoroHdl = Some 0\<rparr>
     \<lparr>frames = [0 \<mapsto> \<lparr>point = FinalSuspend, start = 5, end' = 5, mValue = 4\<rparr>], fresh = 1\<rparr>
     = Inl ResumeAtFinalSuspend \<and>
   Generator_done \<lparr>mCoroHdl = Some 0\<rparr>
     (after_nexts 3 \<lparr>mCoroHdl = Some 0\<rparr>
       \<lparr>frames = [0 \<mapsto> \<lparr>point = FinalSuspend, start = 5, end' = 5, mValue = 4\<rparr>], fresh = 1\<rparr>)
     = Inr True \<and>
   (1 :: cint) <s 5 \<and> (1 :: cint) + 1 <s 5 \<and>
   (\<exists>v s' f'. Generator_next \<lparr>mCoroHdl = Some 0\<rparr>
        \<lparr>frames = [0 \<mapsto> \<lparr>point = YieldSuspend, start = 1, end' = 5, mValue = 1\<rparr>], fresh = 1\<rparr>
        = Inr (v, s') \<and>
      frame_of \<lparr>mCoroHdl = Some 0\<rparr> s' = Inr f' \<and> v = mValue f' \<and> point f' = YieldSuspend) \<and>
   Generator_next \<lparr>mCoroHdl = Some 0\<rparr>
     \<lparr>frames = [0 \<mapsto> \<lparr>point = YieldSuspend, start = 1, end' = 5, mValue = 1\<rparr>], fresh = 1\<rparr>
     = Inr (2, \<lparr>frames = [0 \<mapsto> \<lparr>point = YieldSuspend, start = 2, end' = 5, mValue = 2\<rparr>], fresh = 1\<rparr>) \<and>
   (4 :: cint) <s 5 \<and> \<not> (4 :: cint) + 1 <s 5 \<and>
   (\<exists>v s' f'. Generator_next \<lparr>mCoroHdl = Some 0\<rparr>
        \<lparr>frames = [0 \<mapsto> \<lparr>point = YieldSuspend, start = 4, end' = 5, mValue = 4\<rparr>], fresh = 1\<rparr>
        = Inr (v, s') \<and>
      frame_of \<lparr>mCoroHdl = Some 0\<rparr> s' = Inr f' \<and> v = mValue f' \<and> point f' = FinalSuspend) \<and>
   Generator_next \<lparr>mCoroHdl = Some 0\<rparr>
     \<lparr>frames = [0 \<mapsto> \<lparr>point = YieldSuspend, start = 4, end' = 5, mValue = 4\<rparr>], fresh = 1\<rparr>
     = Inr (4, \<lparr>frames = [0 \<mapsto> \<lparr>point = FinalSuspend, start = 5, end' = 5, mValue = 4\<rparr>], fresh = 1\<rparr>) \<and>
   Generator_done \<lparr>mCoroHdl = Some 0\<rparr>
     (after_nexts 2 \<lparr>mCoroHdl = Some 0\<rparr>
       \<lparr>frames = [0 \<mapsto> \<lparr>point = InitialSuspend, start = 1, end' = 5, mValue = 0\<rparr>], fresh = 1\<rparr>)
     = Inr False \<and>
   (\<exists>v s' f'. Generator_next \<lparr>mCoroHdl = Some 0\<rparr>
        (after_nexts 2 \<lparr>mCoroHdl = Some 0\<rparr>
          \<lparr>frames = [0 \<mapsto> \<lparr>point = InitialSuspend, start = 1, end' = 5, mValue = 0\<rparr>], fresh = 1\<rparr>)
        = Inr (v, s') \<and>
      frame_of \<lparr>mCoroHdl = Some 0\<rparr> s' = Inr f' \<and>
      (point f' = YieldSuspend \<or> point f' = FinalSuspend))"
proof -
  let ?g = "\<lparr>mCoroHdl = Some 0\<rparr>"
  let ?f0 = "\<lparr>point = InitialSuspend, start = 1, end' = 5, mValue = 0 :: cint\<rparr>"
  let ?f1 = "\<lparr>point = YieldSuspend, start = 1, end' = 5, mValue = 1 :: cint\<rparr>"
  let ?f2 = "\<lparr>point = YieldSuspend, start = 2, end' = 5, mValue = 2 :: cint\<rparr>"
  let ?f4 = "\<lparr>point = YieldSuspend, start = 4, end' = 5, mValue = 4 :: cint\<rparr>"
  let ?ff = "\<lparr>point = FinalSuspend, start = 5, end' = 5, mValue = 4 :: cint\<rparr>"
  let ?s0 = "\<lparr>frames = [0 \<mapsto> ?f0], fresh = 1\<rparr>"
  let ?s1 = "\<lparr>frames = [0 \<mapsto> ?f1], fresh = 1\<rparr>"
  let ?s2 = "\<lparr>frames = [0 \<mapsto> ?f2], fresh = 1\<rparr>"
  let ?s4 = "\<lparr>frames = [0 \<mapsto> ?f4], fresh = 1\<rparr>"
  let ?sf = "\<lparr>frames = [0 \<mapsto> ?ff], fresh = 1\<rparr>"
  note sm = generator_state_machine [where ?v0.0 = 0 and a = 1 and b = 5 and ?s0.0 = empty_store]
  note ev = Generator_next_def Generator_done_def frame_of_def resume_def loop_test_def
    yield_value_def INT_MAX_def word_sless_alt
  have c: "counter 0 1 5 empty_store = (?g, ?s0)"
    by (simp add: counter_def empty_store_def)
  have d0: "Generator_done ?g ?s0 = Inr False"
    using sm unfolding c by simp
  have n: "Generator_next ?g ?s0 = Inr (1, ?s1)"
    by (simp add: ev)
  have f0: "frame_of ?g ?s0 = Inr ?f0" and f1: "frame_of ?g ?s1 = Inr ?f1"
    and f4: "frame_of ?g ?s4 = Inr ?f4"
    by (simp_all add: frame_of_def)
  have st: "stage (point ?f0) \<le> stage (point ?f1)"
    using sm n f0 f1 by blast
  have df: "Generator_done ?g ?sf = Inr True"
    by (simp add: Generator_done_def frame_of_def)
  have nf: "Generator_next ?g ?sf = Inl ResumeAtFinalSuspend"
    and da: "Generator_done ?g (after_nexts 3 ?g ?sf) = Inr True"
    using sm df by blast+
  have lt1: "(1 :: cint) <s 5 \<and> (1 :: cint) + 1 <s 5"
    and lt4: "(4 :: cint) <s 5 \<and> \<not> (4 :: cint) + 1 <s 5"
    by (simp_all add: word_sless_alt)
  have c1: "point ?f1 = InitialSuspend \<or> point ?f1 = YieldSuspend \<and> start ?f1 <s end' ?f1"
    and c4: "point ?f4 = InitialSuspend \<or> point ?f4 = YieldSuspend \<and> start ?f4 <s end' ?f4"
    using lt1 lt4 by simp_all
  have "\<exists>v s' f'. Generator_next ?g ?s1 = Inr (v, s') \<and> frame_of ?g s' = Inr f' \<and>
      v = mValue f' \<and>
      point f' =
        (if (if point ?f1 = InitialSuspend then start ?f1 else start ?f1 + 1) <s end' ?f1
         then YieldSuspend else FinalSuspend)"
    using sm f1 c1 by blast
  then have p1: "\<exists>v s' f'. Generator_next ?g ?s1 = Inr (v, s') \<and> frame_of ?g s' = Inr f' \<and>
      v = mValue f' \<and> point f' = YieldSuspend"
    using lt1 by simp
  have "\<exists>v s' f'. Generator_next ?g ?s4 = Inr (v, s') \<and> frame_of ?g s' = Inr f' \<and>
      v = mValue f' \<and>
      point f' =
        (if (if point ?f4 = InitialSuspend then start ?f4 else start ?f4 + 1) <s end' ?f4
         then YieldSuspend else FinalSuspend)"
    using sm f4 c4 by blast
  then have p4: "\<exists>v s' f'. Generator_next ?g ?s4 = Inr (v, s') \<and> frame_of ?g s' = Inr f' \<and>
      v = mValue f' \<and> point f' = FinalSuspend"
    using lt4 by simp
  have n1: "Generator_next ?g ?s1 = Inr (2, ?s2)" and n4: "Generator_next ?g ?s4 = Inr (4, ?sf)"
    by (simp_all add: ev)
  have two: "after_nexts 2 g s = after_nexts (Suc (Suc 0)) g s" for g s
    by (simp add: eval_nat_numeral)
  have a2: "after_nexts 2 ?g ?s0 = ?s2"
    unfolding two by (simp add: ev)
  have d2: "Generator_done ?g (after_nexts 2 ?g ?s0) = Inr False"
    unfolding a2 by (simp add: Generator_done_def frame_of_def)
  have "\<forall>n. Generator_done ?g (after_nexts n ?g ?s0) = Inr False \<longrightarrow>
      (\<exists>v s' f'. Generator_next ?g (after_nexts n ?g ?s0) = Inr (v, s') \<and>
         frame_of ?g s' = Inr f' \<and> (point f' = YieldSuspend \<or> point f' = FinalSuspend))"
    using sm unfolding c by simp
  with d2 have p2: "\<exists>v s' f'. Generator_next ?g (after_nexts 2 ?g ?s0) = Inr (v, s') \<and>
      frame_of ?g s' = Inr f' \<and> (point f' = YieldSuspend \<or> point f' = FinalSuspend)"
    by blast
  from c d0 n st df nf da lt1 p1 n1 lt4 p4 n4 d2 p2 show ?thesis
    by (intro conjI) simp_all
qed

lemma next_to_final:
  assumes "frame_of g s = Inr f"
    and "point f = InitialSuspend \<and> \<not> start f <s end' f \<or>
         point f = YieldSuspend \<and> start f <s end' f \<and> \<not> start f + 1 <s end' f"
  shows "\<exists>s'. Generator_next g s = Inr (mValue f, s') \<and>
            Generator_done g s' = Inr True \<and>
            map_sum id mValue (frame_of g s') = Inr (mValue f) \<and>
            Generator_next g s' = Inl ResumeAtFinalSuspend"
proof -
  obtain p where p: "mCoroHdl g = Some p" "frames s p = Some f"
    using frame_of_handle [OF assms(1)] by blast
  have "\<exists>f'. resume f = Inr f' \<and> point f' = FinalSuspend \<and> mValue f' = mValue f"
    using assms(2)
  proof
    assume "point f = InitialSuspend \<and> \<not> start f <s end' f"
    then show ?thesis by (simp add: resume_def loop_test_def)
  next
    assume y: "point f = YieldSuspend \<and> start f <s end' f \<and> \<not> start f + 1 <s end' f"
    then have "sint (start f) < sint (end' f)" by (simp add: word_sless_alt)
    then have "start f \<noteq> INT_MAX" using sint_le_INT_MAX [of "end' f"] INT_MAX_sint by auto
    with y show ?thesis by (simp add: resume_def loop_test_def)
  qed
  then obtain f' where f': "resume f = Inr f'" "point f' = FinalSuspend" "mValue f' = mValue f"
    by blast
  let ?s = "s\<lparr>frames := (frames s)(p \<mapsto> f')\<rparr>"
  have n: "Generator_next g s = Inr (mValue f, ?s)"
    using assms(1) p f' by (simp add: Generator_next_def)
  have fo: "frame_of g ?s = Inr f'" by (rule frame_of_upd [OF p(1)])
  have d: "Generator_done g ?s = Inr True" using fo f'(2) by (simp add: Generator_done_def)
  show ?thesis using n d fo f'(3) next_at_final [OF d] by simp
qed

text \<open>
  Claim C10. When \<^verbatim>\<open>next()\<close> is called and there is no further value to yield (the
  range is empty and the producer has not started, or the producer is suspended at its last
  \<^verbatim>\<open>co_yield\<close>), the producer runs to its final suspension, \<^verbatim>\<open>done()\<close> becomes
  true, and \<^verbatim>\<open>next()\<close> returns the value stored in the promise, which is left as it
  was; no later call can change it. After any number of calls on \<^verbatim>\<open>counter(a, b)\<close>
  the stored value is the one last yielded, or the one the promise was created with if
  nothing was yielded.
\<close>

theorem next_without_value:
  "(\<forall>g s f.
      frame_of g s = Inr f \<and>
      (point f = InitialSuspend \<and> \<not> start f <s end' f \<or>
       point f = YieldSuspend \<and> start f <s end' f \<and> \<not> start f + 1 <s end' f) \<longrightarrow>
      (\<exists>s'. Generator_next g s = Inr (mValue f, s') \<and>
            Generator_done g s' = Inr True \<and>
            map_sum id mValue (frame_of g s') = Inr (mValue f) \<and>
            Generator_next g s' = Inl ResumeAtFinalSuspend)) \<and>
   (case counter v0 a b s0 of (g, s) \<Rightarrow>
      \<forall>n. \<exists>f. frame_of g (after_nexts n g s) = Inr f \<and> stored_ok v0 a b f)"
proof (intro conjI allI impI)
  fix g s f
  assume "frame_of g s = Inr f \<and>
      (point f = InitialSuspend \<and> \<not> start f <s end' f \<or>
       point f = YieldSuspend \<and> start f <s end' f \<and> \<not> start f + 1 <s end' f)"
  then show "\<exists>s'. Generator_next g s = Inr (mValue f, s') \<and>
            Generator_done g s' = Inr True \<and>
            map_sum id mValue (frame_of g s') = Inr (mValue f) \<and>
            Generator_next g s' = Inl ResumeAtFinalSuspend"
    using next_to_final by blast
next
  obtain g s where c: "counter v0 a b s0 = (g, s)" by (cases "counter v0 a b s0")
  show "case counter v0 a b s0 of (g, s) \<Rightarrow>
      \<forall>n. \<exists>f. frame_of g (after_nexts n g s) = Inr f \<and> stored_ok v0 a b f"
    unfolding c using counter_stored_ok [OF c] by simp
qed

theorem next_without_value_witness:
  "frame_of \<lparr>mCoroHdl = Some 0\<rparr>
     \<lparr>frames = [0 \<mapsto> \<lparr>point = YieldSuspend, start = 4, end' = 5, mValue = 4\<rparr>], fresh = 1\<rparr>
     = Inr \<lparr>point = YieldSuspend, start = 4, end' = 5, mValue = 4\<rparr> \<and>
   (4 :: cint) <s 5 \<and> \<not> (4 :: cint) + 1 <s 5 \<and>
   (\<exists>s'. Generator_next \<lparr>mCoroHdl = Some 0\<rparr>
       \<lparr>frames = [0 \<mapsto> \<lparr>point = YieldSuspend, start = 4, end' = 5, mValue = 4\<rparr>], fresh = 1\<rparr>
       = Inr (4, s') \<and>
     Generator_done \<lparr>mCoroHdl = Some 0\<rparr> s' = Inr True \<and>
     map_sum id mValue (frame_of \<lparr>mCoroHdl = Some 0\<rparr> s') = Inr 4 \<and>
     Generator_next \<lparr>mCoroHdl = Some 0\<rparr> s' = Inl ResumeAtFinalSuspend) \<and>
   (case counter 0 1 5 empty_store of (g, s) \<Rightarrow>
      frame_of g (after_nexts 5 g s) =
        Inr \<lparr>point = FinalSuspend, start = 5, end' = 5, mValue = 4\<rparr>) \<and>
   stored_ok 0 1 5 \<lparr>point = FinalSuspend, start = 5, end' = 5, mValue = 4\<rparr>"
proof -
  let ?g = "\<lparr>mCoroHdl = Some 0\<rparr>"
  let ?f = "\<lparr>point = YieldSuspend, start = 4, end' = 5, mValue = 4 :: cint\<rparr>"
  let ?s = "\<lparr>frames = [0 \<mapsto> ?f], fresh = 1\<rparr>"
  note t = next_without_value [where ?v0.0 = 0 and a = 1 and b = 5 and ?s0.0 = empty_store]
  have fo: "frame_of ?g ?s = Inr ?f" by (simp add: frame_of_def)
  have lt: "(4 :: cint) <s 5 \<and> \<not> (4 :: cint) + 1 <s 5" by (simp add: word_sless_alt)
  have c: "point ?f = InitialSuspend \<and> \<not> start ?f <s end' ?f \<or>
         point ?f = YieldSuspend \<and> start ?f <s end' ?f \<and> \<not> start ?f + 1 <s end' ?f"
    using lt by simp
  have n: "\<exists>s'. Generator_next ?g ?s = Inr (mValue ?f, s') \<and>
      Generator_done ?g s' = Inr True \<and>
      map_sum id mValue (frame_of ?g s') = Inr (mValue ?f) \<and>
      Generator_next ?g s' = Inl ResumeAtFinalSuspend"
    using t fo c by blast
  have e: "case counter 0 1 5 empty_store of (g, s) \<Rightarrow>
      frame_of g (after_nexts 5 g s) =
        Inr \<lparr>point = FinalSuspend, start = 5, end' = 5, mValue = 4\<rparr>"
  proof -
    have five: "after_nexts 5 g s = after_nexts (Suc (Suc (Suc (Suc (Suc 0))))) g s" for g s
      by (simp add: eval_nat_numeral)
    show ?thesis
      unfolding five
      by (simp add: counter_def empty_store_def Generator_next_def frame_of_def
          resume_def loop_test_def yield_value_def INT_MAX_def word_sless_alt)
  qed
  have ok: "stored_ok 0 1 5 \<lparr>point = FinalSuspend, start = 5, end' = 5, mValue = 4\<rparr>"
  proof -
    obtain g s where c: "counter 0 1 5 empty_store = (g, s)"
      by (cases "counter 0 1 5 empty_store")
    from t have "\<exists>f. frame_of g (after_nexts 5 g s) = Inr f \<and> stored_ok 0 1 5 f"
      unfolding c by simp
    moreover from e have "frame_of g (after_nexts 5 g s) =
        Inr \<lparr>point = FinalSuspend, start = 5, end' = 5, mValue = 4\<rparr>"
      unfolding c by simp
    ultimately show ?thesis by simp
  qed
  show ?thesis using fo lt n e ok by simp
qed

text \<open>
  Claim C3. \<^verbatim>\<open>Generator<T>\<close> is claimed to be a move-only handle whose frame is destroyed
  exactly once. The class declares no copy or move operation, so a generator can be copied,
  and a move is a copy: both handles then refer to the frame of \<^verbatim>\<open>counter(1, 5)\<close>, the
  source is not null, and after the destructor of one of them the destructor of the other
  destroys a frame that is gone.
\<close>

theorem Generator_copy_double_destroy:
  "case counter v0 1 5 empty_store of (g, s) \<Rightarrow>
     mCoroHdl (Generator_copy_ctor g) = mCoroHdl g \<and>
     mCoroHdl g = Some 0 \<and>
     mCoroHdl (fst (Generator_move_init g)) = Some 0 \<and>
     mCoroHdl (snd (Generator_move_init g)) = Some 0 \<and>
     (\<exists>s'. Generator_dtor (Generator_copy_ctor g) s = Inr s' \<and>
           Generator_dtor g s' = Inl DanglingHandle \<and>
           Generator_done g s' = Inl DanglingHandle)"
  by (simp add: counter_def empty_store_def Generator_copy_ctor_def Generator_move_init_def
      Generator_dtor_def Generator_done_def frame_of_def)

section \<open>Properties of the constraint vocabulary\<close>

lemma uac_int_same: "uac_int t t = promote t"
  by (simp add: uac_int_def Let_def)

lemma uac_int_promote: "uac_int (promote t) t = promote t"
  by (cases t) (simp_all add: uac_int_def promote_def Let_def)

lemma in_range_promote: "in_range t v \<Longrightarrow> in_range (promote t) v"
  by (cases t) (auto simp: in_range_def promote_def)

lemma convert_in_range: "in_range t v \<Longrightarrow> convert t v = v"
  by (auto simp: in_range_def convert_def split: if_splits)

lemma binop_value_in_range:
  assumes "uac_int t1 t2 = T" and "in_range T a" and "in_range T x"
    and "in_range T (apply_binop op a x)"
  shows "binop_value op (Integer t1 a) (Integer t2 x) = Inr (Integer T (apply_binop op a x))"
proof -
  have c: "convert T a = a" "convert T x = x"
    using assms(2,3) by (simp_all add: convert_in_range)
  have "\<not> is_signed T \<Longrightarrow> apply_binop op a x mod 2 ^ width T = apply_binop op a x"
    using assms(4) by (simp add: in_range_def)
  then show ?thesis using assms(1,4) c by (simp add: Let_def)
qed

lemma fold_left_value_in_range:
  assumes "T = promote t"
  shows "in_range T a \<Longrightarrow> \<forall>x \<in> set xs. in_range t x \<Longrightarrow>
     \<forall>k. 1 \<le> k \<and> k \<le> length xs \<longrightarrow> in_range T (foldl (apply_binop op) a (take k xs)) \<Longrightarrow>
     fold_left_value op (Integer T a) (map (Integer t) xs) =
       Inr (Integer T (foldl (apply_binop op) a xs))"
proof (induction xs arbitrary: a)
  case Nil
  then show ?case by simp
next
  case (Cons x xs)
  have r: "in_range T (apply_binop op a x)"
    using Cons.prems(3) [rule_format, of 1] by simp
  have x: "in_range T x" using Cons.prems(2) assms by (simp add: in_range_promote)
  have b: "binop_value op (Integer T a) (Integer t x) = Inr (Integer T (apply_binop op a x))"
    by (rule binop_value_in_range [OF _ Cons.prems(1) x r]) (simp add: assms uac_int_promote)
  have p: "\<forall>k. 1 \<le> k \<and> k \<le> length xs \<longrightarrow>
      in_range T (foldl (apply_binop op) (apply_binop op a x) (take k xs))"
  proof (intro allI impI)
    fix k assume "1 \<le> k \<and> k \<le> length xs"
    then show "in_range T (foldl (apply_binop op) (apply_binop op a x) (take k xs))"
      using Cons.prems(3) [rule_format, of "Suc k"] by simp
  qed
  have "fold_left_value op (Integer T (apply_binop op a x)) (map (Integer t) xs) =
      Inr (Integer T (foldl (apply_binop op) (apply_binop op a x) xs))"
    using Cons.prems(2) by (intro Cons.IH [OF r _ p]) simp
  then show ?case by (simp add: b del: binop_value.simps)
qed

text \<open>
  A fold over two or more values of one integral type computes in the promoted type and
  returns the mathematical result when every intermediate result is representable there.
\<close>

lemma fold_value_in_range:
  assumes "\<forall>x \<in> set (x0 # x1 # xs). in_range t x"
    and "\<forall>k. 1 \<le> k \<and> k \<le> length (x1 # xs) \<longrightarrow>
           in_range (promote t) (foldl (apply_binop op) x0 (take k (x1 # xs)))"
  shows "fold_value op (map (Integer t) (x0 # x1 # xs)) =
       Inr (Integer (promote t) (foldl (apply_binop op) x0 (x1 # xs)))"
proof -
  let ?T = "promote t"
  have r: "in_range ?T (apply_binop op x0 x1)"
    using assms(2) [rule_format, of 1] by simp
  have i: "in_range ?T x0" "in_range ?T x1" using assms(1) by (simp_all add: in_range_promote)
  have b: "binop_value op (Integer t x0) (Integer t x1) = Inr (Integer ?T (apply_binop op x0 x1))"
    by (rule binop_value_in_range [OF uac_int_same i r])
  have p: "\<forall>k. 1 \<le> k \<and> k \<le> length xs \<longrightarrow>
      in_range ?T (foldl (apply_binop op) (apply_binop op x0 x1) (take k xs))"
  proof (intro allI impI)
    fix k assume "1 \<le> k \<and> k \<le> length xs"
    then show "in_range ?T (foldl (apply_binop op) (apply_binop op x0 x1) (take k xs))"
      using assms(2) [rule_format, of "Suc k"] by simp
  qed
  have "fold_left_value op (Integer ?T (apply_binop op x0 x1)) (map (Integer t) xs) =
      Inr (Integer ?T (foldl (apply_binop op) (apply_binop op x0 x1) xs))"
    using assms(1) by (intro fold_left_value_in_range [OF refl r _ p]) simp
  then show ?thesis by (simp add: b del: binop_value.simps)
qed

lemma foldl_Star: "foldl (apply_binop Star) a xs = a * prod_list xs"
  by (induction xs arbitrary: a) (simp_all add: apply_binop_def mult.assoc)

lemma foldl_Plus: "foldl (apply_binop Plus) a xs = a + sum_list xs"
  by (induction xs arbitrary: a) (simp_all add: apply_binop_def add.assoc)

lemma fold_left_type_integral:
  "fold_left_type op (TIntegral a) (replicate n (TIntegral t)) \<noteq> None"
  by (induction n arbitrary: a) (simp_all add: binop_type_def)

lemma types_uniform: "map type_of (map (Integer t) xs) = replicate (length xs) (TIntegral t)"
  by (induction xs) simp_all

lemma are_same_v_replicate: "0 < n \<Longrightarrow> are_same_v (replicate n T) = Some True"
  by (cases n) (simp_all add: list_all_iff)

lemma Multipliable_integral:
  "2 \<le> n \<Longrightarrow> Multipliable (replicate n (TIntegral t))"
  by (cases n) (simp_all add: Multipliable_def are_same_v_replicate fold_left_type_integral list_all_iff)

text \<open>
  The concept has three clauses and none on the result type: it holds exactly for a uniform
  pack of two or more types whose fold is well-formed.
\<close>

lemma Multipliable_iff:
  "Multipliable Args \<longleftrightarrow>
     (\<exists>T Ts. Args = T # Ts \<and> list_all (\<lambda>U. T = U) Ts \<and> Ts \<noteq> [] \<and> fold_type Star Args \<noteq> None)"
  by (cases Args) (auto simp: Multipliable_def)

lemma Multipliable_spec_imp: "Multipliable_spec Args \<Longrightarrow> Multipliable Args"
  by (cases Args) (auto simp: Multipliable_def Multipliable_spec_def)

lemma fold_left_value_snoc:
  "fold_left_value op acc (xs @ [y]) =
     (case fold_left_value op acc xs of Inl e \<Rightarrow> Inl e | Inr s \<Rightarrow> binop_value op s y)"
proof (induction xs arbitrary: acc)
  case Nil
  then show ?case by (simp del: binop_value.simps split: sum.splits)
next
  case (Cons x xs)
  then show ?case by (simp del: binop_value.simps split: sum.splits)
qed

lemma are_same_v_butlast:
  "xs \<noteq> [] \<Longrightarrow> are_same_v (xs @ [y]) = Some True \<Longrightarrow> are_same_v xs = Some True"
  by (cases xs) simp_all

text \<open>
  The sum of a uniform pack is the mathematical sum when every partial sum is representable
  in the promoted type.
\<close>

lemma Add_sum:
  assumes "2 \<le> length xs" and "\<forall>x \<in> set xs. in_range t x"
    and "\<forall>k. 2 \<le> k \<and> k \<le> length xs \<longrightarrow> in_range (promote t) (sum_list (take k xs))"
  shows "Add (map (Integer t) xs) = Inr (Integer (promote t) (sum_list xs))"
proof -
  obtain x0 x1 ys where xs: "xs = x0 # x1 # ys"
    using assms(1) by (cases xs; cases "tl xs") auto
  have s: "are_same_v (map type_of (map (Integer t) xs)) = Some True"
    unfolding types_uniform using assms(1) by (intro are_same_v_replicate) auto
  have p: "\<forall>k. 1 \<le> k \<and> k \<le> length (x1 # ys) \<longrightarrow>
         in_range (promote t) (foldl (apply_binop Plus) x0 (take k (x1 # ys)))"
  proof (intro allI impI)
    fix k assume k: "1 \<le> k \<and> k \<le> length (x1 # ys)"
    have "in_range (promote t) (sum_list (take (Suc k) xs))"
      using assms(3) [rule_format, of "Suc k"] k by (simp add: xs)
    then show "in_range (promote t) (foldl (apply_binop Plus) x0 (take k (x1 # ys)))"
      by (simp add: foldl_Plus xs)
  qed
  have "fold_value Plus (map (Integer t) (x0 # x1 # ys)) =
      Inr (Integer (promote t) (foldl (apply_binop Plus) x0 (x1 # ys)))"
    using assms(2) by (intro fold_value_in_range [OF _ p]) (simp add: xs)
  moreover have "foldl (apply_binop Plus) x0 (x1 # ys) = sum_list xs"
    unfolding foldl_Plus by (simp add: xs)
  ultimately have "fold_value Plus (map (Integer t) xs) = Inr (Integer (promote t) (sum_list xs))"
    by (simp only: xs)
  then show ?thesis using s by (simp only: Add_def simp_thms if_True)
qed

lemma fold_left_value_not_rejected:
  "fold_left_value op acc xs \<noteq> Inl ConstraintNotSatisfied"
proof (induction xs arbitrary: acc)
  case Nil
  then show ?case by simp
next
  case (Cons x xs)
  obtain t1 v1 where a: "acc = Integer t1 v1" by (cases acc)
  obtain t2 v2 where x: "x = Integer t2 v2" by (cases x)
  show ?case using Cons.IH by (simp add: a x Let_def)
qed

lemma fold_value_not_rejected: "fold_value op xs \<noteq> Inl ConstraintNotSatisfied"
  by (cases xs) (simp_all add: fold_left_value_not_rejected)

section \<open>Claims about the constraint vocabulary\<close>

text \<open>
  Claim C2. \<^verbatim>\<open>Multipliable\<close> is claimed to hold iff four clauses hold, the fourth being
  that the result type of the fold is the operand type, so that it is false for a type whose
  \<^verbatim>\<open>*\<close> is well-formed and returns an unrelated type. The concept of the program has
  no such clause: for a class \<^verbatim>\<open>X\<close> with \<^verbatim>\<open>int operator*(const X&)\<close> the
  product of two operands has type \<^verbatim>\<open>int\<close> and \<^verbatim>\<open>Multipliable<X, X>\<close> is true,
  where the four-clause predicate is false.
\<close>

theorem Multipliable_missing_result_type:
  "binop_type Star (TClass ''X'' (Declared True (Scalar IInt)) NotDeclared)
       (TClass ''X'' (Declared True (Scalar IInt)) NotDeclared) = Some (TIntegral IInt) \<and>
   Multipliable [TClass ''X'' (Declared True (Scalar IInt)) NotDeclared,
                 TClass ''X'' (Declared True (Scalar IInt)) NotDeclared] \<and>
   \<not> Multipliable_spec [TClass ''X'' (Declared True (Scalar IInt)) NotDeclared,
                 TClass ''X'' (Declared True (Scalar IInt)) NotDeclared]"
  by (simp add: Multipliable_def Multipliable_spec_def binop_type_def)

text \<open>
  Claim C6, as stated, fails where the product is not representable: two operands
  \<open>65536\<close> of type \<^verbatim>\<open>int\<close> overflow (undefined behaviour), and of type
  \<^verbatim>\<open>unsigned int\<close> give \<open>0\<close>.
\<close>

theorem Multiply_overflow:
  "Multipliable (map type_of [Integer IInt 65536, Integer IInt 65536]) \<and>
   Multiply [Integer IInt 65536, Integer IInt 65536] = Inl SignedOverflow \<and>
   Multiply [Integer IInt 65536, Integer IInt 65536] \<noteq> Inr (Integer IInt (65536 * 65536)) \<and>
   Multiply [Integer IUInt 65536, Integer IUInt 65536] = Inr (Integer IUInt 0) \<and>
   Multiply [Integer IUInt 65536, Integer IUInt 65536] \<noteq> Inr (Integer IUInt (65536 * 65536))"
  by (simp add: Multiply_def Multipliable_def binop_type_def uac_int_def promote_def
      in_range_def convert_def apply_binop_def)

text \<open>
  Claim C6, amended. For every uniform pack of two or more values of an integral type,
  \<^verbatim>\<open>Multipliable\<close> is satisfied and the call is admitted; \<^verbatim>\<open>Multiply\<close> returns
  the left-fold product, computed in the promoted operand type, and this is the mathematical
  product whenever every partial product of the fold is representable in that type.
\<close>

theorem Multiply_product:
  assumes "2 \<le> length xs" and "\<forall>x \<in> set xs. in_range t x"
  shows "Multipliable (map type_of (map (Integer t) xs)) \<and>
     Multiply (map (Integer t) xs) \<noteq> Inl ConstraintNotSatisfied \<and>
     ((\<forall>k. 2 \<le> k \<and> k \<le> length xs \<longrightarrow> in_range (promote t) (prod_list (take k xs))) \<longrightarrow>
        Multiply (map (Integer t) xs) = Inr (Integer (promote t) (prod_list xs)))"
proof -
  obtain x0 x1 ys where xs: "xs = x0 # x1 # ys"
    using assms(1) by (cases xs; cases "tl xs") auto
  have m: "Multipliable (map type_of (map (Integer t) xs))"
    unfolding types_uniform by (rule Multipliable_integral [OF assms(1)])
  have "Multiply (map (Integer t) xs) = Inr (Integer (promote t) (prod_list xs))"
    if h: "\<forall>k. 2 \<le> k \<and> k \<le> length xs \<longrightarrow> in_range (promote t) (prod_list (take k xs))"
  proof -
    have p: "\<forall>k. 1 \<le> k \<and> k \<le> length (x1 # ys) \<longrightarrow>
           in_range (promote t) (foldl (apply_binop Star) x0 (take k (x1 # ys)))"
    proof (intro allI impI)
      fix k assume k: "1 \<le> k \<and> k \<le> length (x1 # ys)"
      have "in_range (promote t) (prod_list (take (Suc k) xs))"
        using h [rule_format, of "Suc k"] k by (simp add: xs)
      then show "in_range (promote t) (foldl (apply_binop Star) x0 (take k (x1 # ys)))"
        by (simp add: foldl_Star xs)
    qed
    have "fold_value Star (map (Integer t) (x0 # x1 # ys)) =
        Inr (Integer (promote t) (foldl (apply_binop Star) x0 (x1 # ys)))"
      using assms(2) by (intro fold_value_in_range [OF _ p]) (simp add: xs)
    moreover have "foldl (apply_binop Star) x0 (x1 # ys) = prod_list xs"
      unfolding foldl_Star by (simp add: xs)
    ultimately have "fold_value Star (map (Integer t) xs) = Inr (Integer (promote t) (prod_list xs))"
      by (simp only: xs)
    then show ?thesis using m by (simp only: Multiply_def if_True)
  qed
  with m show ?thesis by (simp add: Multiply_def fold_value_not_rejected)
qed

theorem Multiply_product_witness:
  "2 \<le> length [2, 3, 4 :: int] \<and>
   in_range IInt 2 \<and> in_range IInt 3 \<and> in_range IInt 4 \<and>
   in_range (promote IInt) (prod_list (take 2 [2, 3, 4])) \<and>
   in_range (promote IInt) (prod_list (take 3 [2, 3, 4])) \<and>
   Multipliable (map type_of (map (Integer IInt) [2, 3, 4])) \<and>
   Multiply (map (Integer IInt) [2, 3, 4]) = Inr (Integer IInt 24)"
proof -
  have l: "2 \<le> length [2, 3, 4 :: int]" by simp
  have r: "\<forall>x \<in> set [2, 3, 4]. in_range IInt x" by (simp add: in_range_def)
  have p2: "in_range (promote IInt) (prod_list (take 2 [2, 3, 4]))"
    and p3: "in_range (promote IInt) (prod_list (take 3 [2, 3, 4]))"
    by (simp_all add: in_range_def promote_def)
  have p: "\<forall>k. 2 \<le> k \<and> k \<le> length [2, 3, 4 :: int] \<longrightarrow>
      in_range (promote IInt) (prod_list (take k [2, 3, 4]))"
  proof (intro allI impI)
    fix k :: nat assume "2 \<le> k \<and> k \<le> length [2, 3, 4 :: int]"
    then have "k = 2 \<or> k = 3" by auto
    then show "in_range (promote IInt) (prod_list (take k [2, 3, 4]))"
      using p2 p3 by blast
  qed
  have pr: "promote IInt = IInt" by (simp add: promote_def)
  have "Multipliable (map type_of (map (Integer IInt) [2, 3, 4])) \<and>
      Multiply (map (Integer IInt) [2, 3, 4]) = Inr (Integer IInt 24)"
    using Multiply_product [OF l r] p by (simp add: pr)
  then show ?thesis using l r p2 p3 by simp
qed

text \<open>
  Claim C7. \<^verbatim>\<open>Multipliable<int, int>\<close> is true, \<^verbatim>\<open>Multipliable<int, double>\<close>
  and \<^verbatim>\<open>Multipliable<int>\<close> are false, and a call of \<^verbatim>\<open>Multiply\<close> is rejected
  exactly when \<^verbatim>\<open>Multipliable\<close> fails for the types of its arguments: the rejection
  depends on the types alone, and no admitted call ends in it.
\<close>

theorem Multiply_rejected_iff:
  "Multipliable [TIntegral IInt, TIntegral IInt] \<and>
   \<not> Multipliable [TIntegral IInt, TDouble] \<and>
   \<not> Multipliable [TIntegral IInt] \<and>
   (\<forall>args. (Multiply args = Inl ConstraintNotSatisfied) = (\<not> Multipliable (map type_of args)))"
  by (simp add: Multipliable_def binop_type_def Multiply_def fold_value_not_rejected)

text \<open>
  Claim C8. Applied to two operands of the stub type, \<^verbatim>\<open>Multipliable\<close> is false for
  \<^verbatim>\<open>NoMultiply\<close>, true for \<^verbatim>\<open>ValidClass\<close>, true for \<^verbatim>\<open>NotNoexcept\<close> and
  false for \<^verbatim>\<open>DifferentReturnType\<close>.
\<close>

theorem stub_matrix:
  "\<not> Multipliable [NoMultiply, NoMultiply] \<and>
   Multipliable [ValidClass, ValidClass] \<and>
   Multipliable [NotNoexcept, NotNoexcept] \<and>
   \<not> Multipliable [DifferentReturnType, DifferentReturnType]"
  by (simp add: Multipliable_def binop_type_def Stub_decl_def NoMultiply_def ValidClass_def
      NotNoexcept_def DifferentReturnType_def)

text \<open>
  Claim C9. \<^verbatim>\<open>Add\<close> of one argument is that argument, and \<^verbatim>\<open>Add\<close> of a uniform
  pack with one more argument is the sum of \<^verbatim>\<open>Add\<close> of the pack and that argument:
  the left fold. The constraint demo computes \<open>15\<close> and \<open>24\<close> and writes \<open>15\<close>,
  \<open>24\<close> and \<open>14\<close>, each followed by a newline.
\<close>

theorem Add_left_fold:
  "Add [x] = Inr x \<and>
   (xs \<noteq> [] \<and> are_same_v (map type_of (xs @ [y])) = Some True \<longrightarrow>
      Add (xs @ [y]) = (case Add xs of Inl e \<Rightarrow> Inl e | Inr s \<Rightarrow> binop_value Plus s y)) \<and>
   Add (map int_literal [1, 2, 3, 4, 5]) = Inr (int_literal 15) \<and>
   Multiply (map int_literal [2, 3, 4]) = Inr (int_literal 24) \<and>
   main_concepts = Inr (''15'' @ endl @ ''24'' @ endl @ ''14'' @ endl)"
proof (intro conjI impI)
  show "Add [x] = Inr x" by (simp add: Add_def)
next
  assume h: "xs \<noteq> [] \<and> are_same_v (map type_of (xs @ [y])) = Some True"
  then obtain x0 ys where xs: "xs = x0 # ys" by (cases xs) auto
  have "are_same_v (map type_of xs) = Some True"
    using h are_same_v_butlast [of "map type_of xs" "type_of y"] by simp
  moreover have "fold_value Plus (xs @ [y]) =
      (case fold_value Plus xs of Inl e \<Rightarrow> Inl e | Inr s \<Rightarrow> binop_value Plus s y)"
    by (simp add: xs fold_left_value_snoc del: binop_value.simps)
  ultimately show "Add (xs @ [y]) = (case Add xs of Inl e \<Rightarrow> Inl e | Inr s \<Rightarrow> binop_value Plus s y)"
    using h by (simp add: Add_def)
next
  show "Add (map int_literal [1, 2, 3, 4, 5]) = Inr (int_literal 15)"
    by (simp add: Add_def int_literal_def uac_int_def promote_def in_range_def convert_def
        apply_binop_def)
next
  show "Multiply (map int_literal [2, 3, 4]) = Inr (int_literal 24)"
    by (simp add: Multiply_def Multipliable_def binop_type_def int_literal_def uac_int_def
        promote_def in_range_def convert_def apply_binop_def)
next
  show "main_concepts = Inr (''15'' @ endl @ ''24'' @ endl @ ''14'' @ endl)"
    by (simp add: main_concepts_def Add_def Multiply_def Multipliable_def Print_def Integral_def
      int_literal_def binop_type_def uac_int_def promote_def in_range_def convert_def
      apply_binop_def show_int_def digits.simps endl_def)
qed

theorem Add_left_fold_witness:
  "[int_literal 1, int_literal 2] \<noteq> [] \<and>
   are_same_v (map type_of ([int_literal 1, int_literal 2] @ [int_literal 3])) = Some True \<and>
   Add [int_literal 1, int_literal 2] = Inr (int_literal 3) \<and>
   binop_value Plus (int_literal 3) (int_literal 3) = Inr (int_literal 6) \<and>
   Add ([int_literal 1, int_literal 2] @ [int_literal 3]) = Inr (int_literal 6)"
proof -
  have a: "[int_literal 1, int_literal 2] \<noteq> [] \<and>
      are_same_v (map type_of ([int_literal 1, int_literal 2] @ [int_literal 3])) = Some True"
    by (simp add: int_literal_def)
  have b: "Add [int_literal 1, int_literal 2] = Inr (int_literal 3)"
    by (simp add: Add_def int_literal_def uac_int_def promote_def in_range_def convert_def
        apply_binop_def)
  have c: "binop_value Plus (int_literal 3) (int_literal 3) = Inr (int_literal 6)"
    by (simp add: int_literal_def uac_int_def promote_def in_range_def convert_def
        apply_binop_def)
  have "Add ([int_literal 1, int_literal 2] @ [int_literal 3]) =
      (case Add [int_literal 1, int_literal 2] of
         Inl e \<Rightarrow> Inl e
       | Inr s \<Rightarrow> binop_value Plus s (int_literal 3))"
    using Add_left_fold [of "int_literal 1" "[int_literal 1, int_literal 2]" "int_literal 3"] a
    by blast
  then show ?thesis using a b c by (simp only: sum.case) simp
qed

end
